theory Spec2Isabelle
  imports Complex_Main "HOL-Library.Word"
begin

section \<open>The limit order book of order\_book.h and order\_book.cpp\<close>

text \<open>
  The book is the class \<open>OrderBook\<close>: two \<open>std::map\<close>s from price to price level
  (\<open>bids_\<close> ordered by \<open>std::greater\<close>, \<open>asks_\<close> by \<open>std::less\<close>), a
  \<open>std::list<OrderNode>\<close> per price level, and the \<open>std::unordered_map\<close>
  \<open>order_lookup_\<close> from order id to the location of the order, which holds an iterator
  into the list of its level.

  Conventions of the embedding.
  \<^item> \<open>uint64_t\<close> is \<open>64 word\<close>: \<open>+\<close> and \<open>-\<close> wrap as they do in C++.
  \<^item> \<open>size_t\<close> is \<open>nat\<close>: the only \<open>size_t\<close> that the code computes is the
    counter of \<open>get_snapshot\<close>, which stays below the number of levels of a map.
  \<^item> \<open>double\<close> prices are \<open>real\<close>. The code never computes with a price, it only
    compares prices (\<open>!=\<close>, and \<open><\<close> or \<open>>\<close> inside \<open>std::map\<close>). NaN, for which
    these comparisons are no order, and the distinction between the two zeros are
    outside the model.
  \<^item> A \<open>std::list<OrderNode>::iterator\<close> is a reference to a list node that stays valid
    until that node is erased. It is a natural number here, the address of the node, and
    the nodes live in an explicit store \<open>list_nodes\<close>; the list of a level is the
    sequence of the addresses of its nodes, front first. \<open>push_back\<close> takes the address
    \<open>next_iter\<close>, which no node has had before.
  \<^item> Dereferencing an iterator that refers to no node, and erasing from a list an
    iterator of a node that is not in it, are undefined behaviour in C++: the operations
    that do so return \<open>None\<close> there.
  \<^item> Isabelle does not take a name that ends in an underscore, so the members
    \<open>bids_\<close>, \<open>asks_\<close>, \<open>order_lookup_\<close> are the fields \<open>bids\<close>, \<open>asks\<close>,
    \<open>order_lookup\<close>. The fields of a record are global names, so the fields of
    \<open>PriceLevel\<close>, \<open>PriceLevelData\<close> and \<open>OrderLocation\<close> that share a name with a
    field of \<open>Order\<close> or \<open>OrderNode\<close> carry a prefix.
\<close>

subsection \<open>Data model (order\_book.h)\<close>

record Order =
  order_id :: "64 word"
  is_buy :: bool
  price :: real
  quantity :: "64 word"
  timestamp_ns :: "64 word"

record PriceLevel =
  pl_price :: real
  pl_total_quantity :: "64 word"

record OrderNode =
  order :: Order
  list_iter :: nat

record PriceLevelData =
  level_price :: real
  orders :: "nat list"
  total_quantity :: "64 word"

record OrderLocation =
  loc_is_buy :: bool
  loc_price :: real
  loc_list_iter :: nat

text \<open>
  A \<open>std::map<double, PriceLevelData, Compare>\<close> is the list of its entries in
  iteration order. The comparison of the map is a parameter of the one operation that
  needs it, the insertion; two keys are equivalent for the map when they are equal.
\<close>

type_synonym level_map = "(real \<times> PriceLevelData) list"

record OrderBook =
  bids :: level_map
  asks :: level_map
  order_lookup :: "64 word \<rightharpoonup> OrderLocation"
  list_nodes :: "nat \<rightharpoonup> OrderNode"
  next_iter :: nat

text \<open>\<open>OrderBook() = default\<close>: all three containers are empty.\<close>

definition empty_book :: OrderBook where
  "empty_book =
     \<lparr>bids = [], asks = [], order_lookup = Map.empty, list_nodes = Map.empty, next_iter = 0\<rparr>"

subsection \<open>The operations of std::map that the book uses\<close>

text \<open>\<open>m.find(k)\<close>: the value stored under \<open>k\<close>, or \<open>None\<close> for \<open>m.end()\<close>.\<close>

fun levels_find :: "real \<Rightarrow> level_map \<Rightarrow> PriceLevelData option" where
  "levels_find k [] = None"
| "levels_find k ((k', v) # m) = (if k' = k then Some v else levels_find k m)"

text \<open>
  The value that \<open>m[k]\<close> creates when \<open>k\<close> is absent: a value-initialised
  \<open>PriceLevelData\<close>, with an empty list and \<open>total_quantity = 0\<close>.
\<close>

definition new_level :: PriceLevelData where
  "new_level = \<lparr>level_price = 0, orders = [], total_quantity = 0\<rparr>"

text \<open>
  The insertion of a new entry: it is put before the first key that comes after \<open>k\<close>
  in the order \<open>lt\<close> of the map.
\<close>

fun levels_insert :: "(real \<Rightarrow> real \<Rightarrow> bool) \<Rightarrow> real \<Rightarrow> PriceLevelData \<Rightarrow> level_map \<Rightarrow> level_map" where
  "levels_insert lt k v [] = [(k, v)]"
| "levels_insert lt k v ((k', v') # m) =
     (if lt k k' then (k, v) # (k', v') # m else (k', v') # levels_insert lt k v m)"

text \<open>
  \<open>m[k]\<close> as far as it changes the map: when \<open>k\<close> is absent, an entry with a new
  level is inserted; when it is present, nothing changes.
\<close>

definition levels_subscript :: "(real \<Rightarrow> real \<Rightarrow> bool) \<Rightarrow> real \<Rightarrow> level_map \<Rightarrow> level_map" where
  "levels_subscript lt k m =
     (case levels_find k m of None \<Rightarrow> levels_insert lt k new_level m | Some _ \<Rightarrow> m)"

text \<open>A write through a reference to the value stored under \<open>k\<close>.\<close>

fun levels_modify :: "real \<Rightarrow> (PriceLevelData \<Rightarrow> PriceLevelData) \<Rightarrow> level_map \<Rightarrow> level_map" where
  "levels_modify k f [] = []"
| "levels_modify k f ((k', v) # m) =
     (if k' = k then (k', f v) # m else (k', v) # levels_modify k f m)"

text \<open>\<open>m.erase(it)\<close> for the iterator \<open>it\<close> that \<open>m.find(k)\<close> returned.\<close>

fun levels_erase :: "real \<Rightarrow> level_map \<Rightarrow> level_map" where
  "levels_erase k [] = []"
| "levels_erase k ((k', v) # m) = (if k' = k then m else (k', v) # levels_erase k m)"

subsection \<open>add\_order\<close>

text \<open>
  The reference \<open>price_level\<close> is to the entry of \<open>bids_\<close> or of \<open>asks_\<close> under the
  price of the order, created if absent. The node is appended to its list, its
  \<open>list_iter\<close> is set to its own address, the quantity is added to the total of the
  level, and the location is stored under the order id, replacing what was stored there.
\<close>

definition add_to_level :: "Order \<Rightarrow> nat \<Rightarrow> PriceLevelData \<Rightarrow> PriceLevelData" where
  "add_to_level ord it level =
     level\<lparr>level_price := price ord,
           orders := orders level @ [it],
           total_quantity := total_quantity level + quantity ord\<rparr>"

definition add_order :: "Order \<Rightarrow> OrderBook \<Rightarrow> OrderBook" where
  "add_order ord s =
     (let it = next_iter s;
          s1 = (if is_buy ord
                then s\<lparr>bids := levels_modify (price ord) (add_to_level ord it)
                                 (levels_subscript (>) (price ord) (bids s))\<rparr>
                else s\<lparr>asks := levels_modify (price ord) (add_to_level ord it)
                                 (levels_subscript (<) (price ord) (asks s))\<rparr>);
          location = \<lparr>loc_is_buy = is_buy ord, loc_price = price ord, loc_list_iter = it\<rparr>
      in s1\<lparr>list_nodes := (list_nodes s)(it \<mapsto> \<lparr>order = ord, list_iter = it\<rparr>),
            next_iter := Suc it,
            order_lookup := (order_lookup s)(order_id ord \<mapsto> location)\<rparr>)"

subsection \<open>cancel\_order\<close>

text \<open>
  What both branches of \<open>cancel_order\<close> do to the level they found: subtract the
  quantity of the order, erase the node from the list and, if the list is then empty,
  erase the level from the map.
\<close>

definition remove_from_level :: "real \<Rightarrow> nat \<Rightarrow> Order \<Rightarrow> PriceLevelData \<Rightarrow> level_map \<Rightarrow> level_map" where
  "remove_from_level k it ord price_level m =
     (let price_level' = price_level\<lparr>total_quantity := total_quantity price_level - quantity ord,
                                     orders := remove1 it (orders price_level)\<rparr>
      in if orders price_level' = [] then levels_erase k m
         else levels_modify k (\<lambda>_. price_level') m)"

definition cancel_order :: "64 word \<Rightarrow> OrderBook \<Rightarrow> (bool \<times> OrderBook) option" where
  "cancel_order oid s =
     (case order_lookup s oid of
        None \<Rightarrow> Some (False, s)
      | Some location \<Rightarrow>
          (case list_nodes s (loc_list_iter location) of
             None \<Rightarrow> None
           | Some node \<Rightarrow>
               if loc_is_buy location then
                 (case levels_find (loc_price location) (bids s) of
                    None \<Rightarrow> Some (False, s)
                  | Some price_level \<Rightarrow>
                      if loc_list_iter location \<notin> set (orders price_level) then None
                      else Some (True,
                        s\<lparr>bids := remove_from_level (loc_price location) (loc_list_iter location)
                                    (order node) price_level (bids s),
                          list_nodes := (list_nodes s)(loc_list_iter location := None),
                          order_lookup := (order_lookup s)(oid := None)\<rparr>))
               else
                 (case levels_find (loc_price location) (asks s) of
                    None \<Rightarrow> Some (False, s)
                  | Some price_level \<Rightarrow>
                      if loc_list_iter location \<notin> set (orders price_level) then None
                      else Some (True,
                        s\<lparr>asks := remove_from_level (loc_price location) (loc_list_iter location)
                                    (order node) price_level (asks s),
                          list_nodes := (list_nodes s)(loc_list_iter location := None),
                          order_lookup := (order_lookup s)(oid := None)\<rparr>))))"

subsection \<open>amend\_order\<close>

text \<open>
  With a new price, the order is copied, the copy gets the new price and quantity, the
  old order is cancelled (the result of \<open>cancel_order\<close> is not looked at) and the copy
  is added. With the same price, the total of the level and the quantity of the node
  are written in place.
\<close>

definition amend_level :: "Order \<Rightarrow> 64 word \<Rightarrow> PriceLevelData \<Rightarrow> PriceLevelData" where
  "amend_level ord new_quantity price_level =
     price_level\<lparr>total_quantity := total_quantity price_level - quantity ord + new_quantity\<rparr>"

definition amend_order :: "64 word \<Rightarrow> real \<Rightarrow> 64 word \<Rightarrow> OrderBook \<Rightarrow> (bool \<times> OrderBook) option" where
  "amend_order oid new_price new_quantity s =
     (case order_lookup s oid of
        None \<Rightarrow> Some (False, s)
      | Some location \<Rightarrow>
          (case list_nodes s (loc_list_iter location) of
             None \<Rightarrow> None
           | Some node \<Rightarrow>
               if price (order node) \<noteq> new_price then
                 (let new_order = (order node)\<lparr>price := new_price, quantity := new_quantity\<rparr>
                  in case cancel_order oid s of
                       None \<Rightarrow> None
                     | Some (_, s1) \<Rightarrow> Some (True, add_order new_order s1))
               else if loc_is_buy location then
                 (case levels_find (loc_price location) (bids s) of
                    None \<Rightarrow> Some (False, s)
                  | Some price_level \<Rightarrow>
                      Some (True,
                        s\<lparr>bids := levels_modify (loc_price location)
                                    (amend_level (order node) new_quantity) (bids s),
                          list_nodes := (list_nodes s)(loc_list_iter location \<mapsto>
                             node\<lparr>order := (order node)\<lparr>quantity := new_quantity\<rparr>\<rparr>)\<rparr>))
               else
                 (case levels_find (loc_price location) (asks s) of
                    None \<Rightarrow> Some (False, s)
                  | Some price_level \<Rightarrow>
                      Some (True,
                        s\<lparr>asks := levels_modify (loc_price location)
                                    (amend_level (order node) new_quantity) (asks s),
                          list_nodes := (list_nodes s)(loc_list_iter location \<mapsto>
                             node\<lparr>order := (order node)\<lparr>quantity := new_quantity\<rparr>\<rparr>)\<rparr>))))"

subsection \<open>get\_snapshot\<close>

text \<open>
  One of the two loops of \<open>get_snapshot\<close>: it walks the map in iteration order, stops
  when \<open>count >= depth\<close>, and appends one \<open>PriceLevel\<close> per entry, with the key of the
  entry and the total of its level.
\<close>

fun snapshot_loop :: "nat \<Rightarrow> nat \<Rightarrow> level_map \<Rightarrow> PriceLevel list \<Rightarrow> PriceLevel list" where
  "snapshot_loop depth count [] out = out"
| "snapshot_loop depth count ((k, price_level) # m) out =
     (if count \<ge> depth then out
      else snapshot_loop depth (Suc count) m
             (out @ [\<lparr>pl_price = k, pl_total_quantity = total_quantity price_level\<rparr>]))"

text \<open>
  \<open>get_snapshot\<close> is a \<open>const\<close> member function: it returns no book. Its two vector
  arguments are results only; what they held at the call is cleared first.
\<close>

definition get_snapshot :: "nat \<Rightarrow> PriceLevel list \<Rightarrow> PriceLevel list \<Rightarrow> OrderBook
    \<Rightarrow> PriceLevel list \<times> PriceLevel list" where
  "get_snapshot depth bids_arg asks_arg s =
     (let bids0 = []; asks0 = []
      in (snapshot_loop depth 0 (bids s) bids0, snapshot_loop depth 0 (asks s) asks0))"

section \<open>Reachable books and their invariant\<close>

subsection \<open>Reachable states\<close>

text \<open>
  The books that a caller can build: from the empty book by \<open>add_order\<close>,
  \<open>cancel_order\<close> and \<open>amend_order\<close>, with any arguments. \<open>get_snapshot\<close> has no
  rule, since it returns no book. A call of \<open>cancel_order\<close> or \<open>amend_order\<close> whose
  behaviour is undefined leads nowhere; \<open>cancel_order_cases\<close> and
  \<open>amend_order_cases\<close> below show that there is no such call on a reachable book.
\<close>

inductive reachable :: "OrderBook \<Rightarrow> bool" where
  reachable_empty: "reachable empty_book"
| reachable_add: "reachable s \<Longrightarrow> reachable (add_order ord s)"
| reachable_cancel: "reachable s \<Longrightarrow> cancel_order oid s = Some (r, s') \<Longrightarrow> reachable s'"
| reachable_amend: "reachable s \<Longrightarrow> amend_order oid p q s = Some (r, s') \<Longrightarrow> reachable s'"

text \<open>
  The books built by a caller who keeps the precondition of \<open>add_order\<close>: the id of an
  added order has no entry in \<open>order_lookup_\<close> at the call.
\<close>

inductive reachable_fresh :: "OrderBook \<Rightarrow> bool" where
  fresh_empty: "reachable_fresh empty_book"
| fresh_add: "reachable_fresh s \<Longrightarrow> order_lookup s (order_id ord) = None
    \<Longrightarrow> reachable_fresh (add_order ord s)"
| fresh_cancel: "reachable_fresh s \<Longrightarrow> cancel_order oid s = Some (r, s') \<Longrightarrow> reachable_fresh s'"
| fresh_amend: "reachable_fresh s \<Longrightarrow> amend_order oid p q s = Some (r, s') \<Longrightarrow> reachable_fresh s'"

subsection \<open>The two sides, uniformly\<close>

definition side_levels :: "bool \<Rightarrow> OrderBook \<Rightarrow> level_map" where
  "side_levels b s = (if b then bids s else asks s)"

definition side_lt :: "bool \<Rightarrow> real \<Rightarrow> real \<Rightarrow> bool" where
  "side_lt b = (if b then (>) else (<))"

text \<open>All levels of the book with their side and key, bids first.\<close>

definition levels_of :: "OrderBook \<Rightarrow> (bool \<times> real \<times> PriceLevelData) list" where
  "levels_of s =
     map (\<lambda>(k, lvl). (True, k, lvl)) (bids s) @ map (\<lambda>(k, lvl). (False, k, lvl)) (asks s)"

subsection \<open>The invariant\<close>

text \<open>The quantity of the order in the node at an address.\<close>

definition node_quantity :: "(nat \<rightharpoonup> OrderNode) \<Rightarrow> nat \<Rightarrow> 64 word" where
  "node_quantity nodes h = (case nodes h of None \<Rightarrow> 0 | Some n \<Rightarrow> quantity (order n))"

text \<open>
  A level stored under the key \<open>k\<close> on the side \<open>b\<close>: its list is not empty and has
  no address twice, every node of the list exists and holds an order of this side and
  price, and the total is the sum of the quantities, in \<open>uint64_t\<close> arithmetic.
\<close>

definition level_ok :: "(nat \<rightharpoonup> OrderNode) \<Rightarrow> bool \<Rightarrow> real \<Rightarrow> PriceLevelData \<Rightarrow> bool" where
  "level_ok nodes b k lvl \<longleftrightarrow>
     orders lvl \<noteq> [] \<and> distinct (orders lvl) \<and> level_price lvl = k \<and>
     (\<forall>h \<in> set (orders lvl). \<exists>n. nodes h = Some n \<and> is_buy (order n) = b \<and> price (order n) = k
        \<and> list_iter n = h) \<and>
     total_quantity lvl = sum_list (map (node_quantity nodes) (orders lvl))"

definition side_ok :: "(nat \<rightharpoonup> OrderNode) \<Rightarrow> bool \<Rightarrow> level_map \<Rightarrow> bool" where
  "side_ok nodes b m \<longleftrightarrow>
     sorted_wrt (side_lt b) (map fst m) \<and>
     (\<forall>k lvl. levels_find k m = Some lvl \<longrightarrow> level_ok nodes b k lvl)"

text \<open>
  Every entry of \<open>order_lookup_\<close> names a level that exists and whose list holds the
  node of the entry, and that node holds an order with the id of the entry.
\<close>

definition lookup_ok :: "OrderBook \<Rightarrow> bool" where
  "lookup_ok s \<longleftrightarrow>
     (\<forall>oid loc. order_lookup s oid = Some loc \<longrightarrow>
        (\<exists>lvl n. levels_find (loc_price loc) (side_levels (loc_is_buy loc) s) = Some lvl
           \<and> loc_list_iter loc \<in> set (orders lvl)
           \<and> list_nodes s (loc_list_iter loc) = Some n \<and> order_id (order n) = oid))"

definition book_inv :: "OrderBook \<Rightarrow> bool" where
  "book_inv s \<longleftrightarrow>
     (\<forall>b. side_ok (list_nodes s) b (side_levels b s)) \<and> lookup_ok s \<and>
     (\<forall>h n. list_nodes s h = Some n \<longrightarrow> h < next_iter s)"

text \<open>
  The converse of \<open>lookup_ok\<close>: every node in a list is the node of the entry stored
  under the id of its order. It holds on the books of \<open>reachable_fresh\<close> only.
\<close>

definition all_indexed :: "OrderBook \<Rightarrow> bool" where
  "all_indexed s \<longleftrightarrow>
     (\<forall>b k lvl. levels_find k (side_levels b s) = Some lvl \<longrightarrow>
        (\<forall>h \<in> set (orders lvl). \<exists>n. list_nodes s h = Some n \<and>
           order_lookup s (order_id (order n)) =
             Some \<lparr>loc_is_buy = b, loc_price = k, loc_list_iter = h\<rparr>))"

subsection \<open>The results of the operations on a book that satisfies the invariant\<close>

text \<open>The book after \<open>cancel_order\<close> has found the entry, the node and the level.\<close>

definition cancelled :: "64 word \<Rightarrow> OrderLocation \<Rightarrow> OrderNode \<Rightarrow> PriceLevelData \<Rightarrow> OrderBook \<Rightarrow> OrderBook" where
  "cancelled oid loc n lvl s =
     (let m = remove_from_level (loc_price loc) (loc_list_iter loc) (order n) lvl
                (side_levels (loc_is_buy loc) s);
          s1 = (if loc_is_buy loc then s\<lparr>bids := m\<rparr> else s\<lparr>asks := m\<rparr>)
      in s1\<lparr>list_nodes := (list_nodes s)(loc_list_iter loc := None),
            order_lookup := (order_lookup s)(oid := None)\<rparr>)"

text \<open>The book after \<open>amend_order\<close> has written a new quantity in place.\<close>

definition amended :: "OrderLocation \<Rightarrow> OrderNode \<Rightarrow> 64 word \<Rightarrow> OrderBook \<Rightarrow> OrderBook" where
  "amended loc n q s =
     (let m = levels_modify (loc_price loc) (amend_level (order n) q)
                (side_levels (loc_is_buy loc) s);
          s1 = (if loc_is_buy loc then s\<lparr>bids := m\<rparr> else s\<lparr>asks := m\<rparr>)
      in s1\<lparr>list_nodes := (list_nodes s)(loc_list_iter loc \<mapsto>
               n\<lparr>order := (order n)\<lparr>quantity := q\<rparr>\<rparr>)\<rparr>)"

subsection \<open>The properties of the book that the claims state\<close>

text \<open>
  The total of every level is the sum of the quantities of the orders in its list. The
  sum is taken in \<open>uint64_t\<close>, as the code computes it.
\<close>

definition totals_ok :: "OrderBook \<Rightarrow> bool" where
  "totals_ok s \<longleftrightarrow>
     (\<forall>(b, k, lvl) \<in> set (levels_of s).
        total_quantity lvl = sum_list (map (node_quantity (list_nodes s)) (orders lvl)))"

text \<open>
  Every order in a list has an entry in \<open>order_lookup_\<close> under its id, and the side,
  price and iterator of that entry are those of the level and the node of the order.
  A \<open>std::unordered_map\<close> holds at most one entry per key, as a map does here.
\<close>

definition live_orders_indexed :: "OrderBook \<Rightarrow> bool" where
  "live_orders_indexed s \<longleftrightarrow>
     (\<forall>(b, k, lvl) \<in> set (levels_of s). \<forall>h \<in> set (orders lvl).
        (case list_nodes s h of
           None \<Rightarrow> False
         | Some n \<Rightarrow>
            (case order_lookup s (order_id (order n)) of
               None \<Rightarrow> False
             | Some loc \<Rightarrow> loc_is_buy loc = b \<and> loc_price loc = k \<and> loc_list_iter loc = h)))"

text \<open>No level of the book has an empty list.\<close>

definition no_empty_level :: "OrderBook \<Rightarrow> bool" where
  "no_empty_level s \<longleftrightarrow> (\<forall>(b, k, lvl) \<in> set (levels_of s). orders lvl \<noteq> [])"

text \<open>The \<open>PriceLevel\<close> that \<open>get_snapshot\<close> makes of an entry of a map.\<close>

definition level_summary :: "real \<times> PriceLevelData \<Rightarrow> PriceLevel" where
  "level_summary e = \<lparr>pl_price = fst e, pl_total_quantity = total_quantity (snd e)\<rparr>"

subsection \<open>Sequences of operations\<close>

text \<open>
  The three calls that change the book, and a sequence of them run from a book. The
  result is \<open>None\<close> when the behaviour of one of the calls is undefined.
\<close>

datatype operation = Add Order | Cancel "64 word" | Amend "64 word" real "64 word"

fun apply_operation :: "operation \<Rightarrow> OrderBook \<Rightarrow> OrderBook option" where
  "apply_operation (Add ord) s = Some (add_order ord s)"
| "apply_operation (Cancel oid) s = map_option snd (cancel_order oid s)"
| "apply_operation (Amend oid p q) s = map_option snd (amend_order oid p q s)"

fun run :: "operation list \<Rightarrow> OrderBook \<Rightarrow> OrderBook option" where
  "run [] s = Some s"
| "run (x # xs) s = (case apply_operation x s of None \<Rightarrow> None | Some s' \<Rightarrow> run xs s')"

text \<open>The node \<open>h\<close> is in the list of the level \<open>k\<close> of the side \<open>b\<close>.\<close>

definition in_queue :: "nat \<Rightarrow> bool \<Rightarrow> real \<Rightarrow> OrderBook \<Rightarrow> bool" where
  "in_queue h b k s =
     (case levels_find k (side_levels b s) of None \<Rightarrow> False | Some lvl \<Rightarrow> h \<in> set (orders lvl))"

text \<open>No entry of \<open>order_lookup_\<close> refers to the node \<open>h\<close>.\<close>

definition unreferenced :: "nat \<Rightarrow> OrderBook \<Rightarrow> bool" where
  "unreferenced h s \<longleftrightarrow> (\<forall>oid loc. order_lookup s oid = Some loc \<longrightarrow> loc_list_iter loc \<noteq> h)"

subsection \<open>Example orders and books\<close>

text \<open>The orders of the tests in main.cpp, with fixed timestamps.\<close>

definition buy1 :: Order where
  "buy1 = \<lparr>order_id = 1, is_buy = True, price = 100, quantity = 50, timestamp_ns = 1000\<rparr>"

definition buy2 :: Order where
  "buy2 = \<lparr>order_id = 2, is_buy = True, price = 100, quantity = 30, timestamp_ns = 2000\<rparr>"

definition buy3 :: Order where
  "buy3 = \<lparr>order_id = 3, is_buy = True, price = 99, quantity = 100, timestamp_ns = 3000\<rparr>"

definition sell4 :: Order where
  "sell4 = \<lparr>order_id = 4, is_buy = False, price = 101, quantity = 40, timestamp_ns = 4000\<rparr>"

definition sell5 :: Order where
  "sell5 = \<lparr>order_id = 5, is_buy = False, price = 102, quantity = 60, timestamp_ns = 5000\<rparr>"

text \<open>A second order with the id of \<open>buy1\<close>, at another price.\<close>

definition dup1 :: Order where
  "dup1 = \<lparr>order_id = 1, is_buy = True, price = 99, quantity = 30, timestamp_ns = 6000\<rparr>"

text \<open>An order with an id and a price that \<open>example_book\<close> does not have.\<close>

definition sell6 :: Order where
  "sell6 = \<lparr>order_id = 6, is_buy = False, price = 103, quantity = 10, timestamp_ns = 7000\<rparr>"

definition example_book :: OrderBook where
  "example_book =
     add_order sell5 (add_order sell4 (add_order buy3 (add_order buy2 (add_order buy1 empty_book))))"

section \<open>Proofs\<close>

subsection \<open>Facts about the maps\<close>

lemma levels_find_None: "levels_find k m = None \<longleftrightarrow> k \<notin> fst ` set m"
  by (induction m) (force split: if_splits)+

lemma levels_find_insert:
  "levels_find k m = None \<Longrightarrow>
   levels_find k' (levels_insert lt k v m) = (if k' = k then Some v else levels_find k' m)"
  by (induction m) (auto split: if_splits)

lemma levels_find_subscript:
  "levels_find k' (levels_subscript lt k m) =
     (if k' = k then Some (case levels_find k m of None \<Rightarrow> new_level | Some v \<Rightarrow> v)
      else levels_find k' m)"
  by (auto simp: levels_subscript_def levels_find_insert split: option.splits)

lemma levels_find_modify:
  "levels_find k' (levels_modify k f m) =
     (if k' = k then map_option f (levels_find k m) else levels_find k' m)"
  by (induction m) auto

lemma keys_insert: "fst ` set (levels_insert lt k v m) = insert k (fst ` set m)"
  by (induction lt k v m rule: levels_insert.induct) (simp_all add: insert_commute)

lemma keys_modify: "map fst (levels_modify k f m) = map fst m"
  by (induction m) auto

lemma keys_erase: "fst ` set (levels_erase k m) \<subseteq> fst ` set m"
  by (induction k m rule: levels_erase.induct) (simp_all add: subset_insertI2)

lemma levels_find_erase:
  "distinct (map fst m) \<Longrightarrow>
   levels_find k' (levels_erase k m) = (if k' = k then None else levels_find k' m)"
proof (induction m)
  case Nil
  then show ?case by simp
next
  case (Cons e m)
  obtain k1 v1 where e: "e = (k1, v1)" by (cases e)
  from Cons.prems e have "levels_find k1 m = None" by (simp add: levels_find_None)
  with Cons e show ?case by auto
qed

lemma levels_find_mem:
  "distinct (map fst m) \<Longrightarrow> (k, v) \<in> set m \<longleftrightarrow> levels_find k m = Some v"
proof (induction m)
  case Nil
  then show ?case by simp
next
  case (Cons e m)
  obtain k' v' where e: "e = (k', v')" by (cases e)
  show ?case
  proof (cases "k' = k")
    case True
    with Cons.prems e have "k \<notin> fst ` set m" by simp
    then have "(k, v) \<notin> set m" by force
    with True e show ?thesis by auto
  next
    case False
    with Cons e show ?thesis by auto
  qed
qed

lemma sorted_erase:
  "sorted_wrt lt (map fst m) \<Longrightarrow> sorted_wrt lt (map fst (levels_erase k m))"
proof (induction m)
  case Nil
  then show ?case by simp
next
  case (Cons e m)
  obtain k' v' where e: "e = (k', v')" by (cases e)
  have "\<forall>x \<in> fst ` set m. lt k' x"
    using Cons.prems e by simp
  with keys_erase [of k m] have "\<forall>x \<in> fst ` set (levels_erase k m). lt k' x"
    by blast
  with Cons e show ?case by auto
qed

lemma levels_modify_id:
  "levels_find k m = Some v \<Longrightarrow> f v = v \<Longrightarrow> levels_modify k f m = m"
  by (induction m) (auto split: if_splits)

lemma levels_modify_modify:
  "levels_modify k g (levels_modify k f m) = levels_modify k (g \<circ> f) m"
  by (induction m) auto

lemma levels_erase_insert:
  "levels_find k m = None \<Longrightarrow> levels_erase k (levels_modify k f (levels_insert lt k v m)) = m"
  by (induction m) (auto split: if_splits)

lemma snapshot_loop_eq:
  "snapshot_loop depth count m out =
     out @ map (\<lambda>(k, l). \<lparr>pl_price = k, pl_total_quantity = total_quantity l\<rparr>) (take (depth - count) m)"
proof (induction depth count m out rule: snapshot_loop.induct)
  case (1 depth count out)
  then show ?case by simp
next
  case (2 depth count k price_level m out)
  show ?case
  proof (cases "count \<ge> depth")
    case True
    then show ?thesis by simp
  next
    case False
    then have "depth - count = Suc (depth - Suc count)" by simp
    with 2 False show ?thesis by simp
  qed
qed

lemma side_lt_trans: "side_lt b x y \<Longrightarrow> side_lt b y z \<Longrightarrow> side_lt b x z"
  by (auto simp: side_lt_def split: if_splits)

lemma side_lt_total: "x \<noteq> y \<Longrightarrow> \<not> side_lt b x y \<Longrightarrow> side_lt b y x"
  by (auto simp: side_lt_def split: if_splits)

lemma side_lt_irrefl: "\<not> side_lt b x x"
  by (simp add: side_lt_def)

lemma sorted_side_distinct: "sorted_wrt (side_lt b) xs \<Longrightarrow> distinct xs"
  by (induction xs) (auto simp: side_lt_irrefl)

lemma sorted_insert_side:
  "sorted_wrt (side_lt b) (map fst m) \<Longrightarrow> k \<notin> fst ` set m
    \<Longrightarrow> sorted_wrt (side_lt b) (map fst (levels_insert (side_lt b) k v m))"
proof (induction m)
  case Nil
  then show ?case by simp
next
  case (Cons e m)
  obtain k' v' where e: "e = (k', v')" by (cases e)
  from Cons.prems e have neq: "k' \<noteq> k" by auto
  show ?case
  proof (cases "side_lt b k k'")
    case True
    with Cons.prems e side_lt_trans [of b k k'] show ?thesis by auto
  next
    case False
    with neq have lt: "side_lt b k' k" using side_lt_total [of k k' b] by blast
    have "\<forall>x \<in> fst ` set (levels_insert (side_lt b) k v m). side_lt b k' x"
      using Cons.prems e lt by (auto simp: keys_insert)
    with Cons e False show ?thesis by auto
  qed
qed

lemma sorted_subscript:
  assumes "sorted_wrt (side_lt b) (map fst m)"
  shows "sorted_wrt (side_lt b) (map fst (levels_subscript (side_lt b) k m))"
proof (cases "levels_find k m")
  case None
  then have "k \<notin> fst ` set m" by (simp add: levels_find_None)
  with assms have "sorted_wrt (side_lt b) (map fst (levels_insert (side_lt b) k new_level m))"
    by (rule sorted_insert_side)
  with None show ?thesis by (simp add: levels_subscript_def)
next
  case (Some v)
  with assms show ?thesis by (simp add: levels_subscript_def)
qed

subsection \<open>The fields of the book after add\_order\<close>

lemma side_levels_add_order:
  "side_levels b (add_order ord s) =
     (if b = is_buy ord
      then levels_modify (price ord) (add_to_level ord (next_iter s))
             (levels_subscript (side_lt b) (price ord) (side_levels b s))
      else side_levels b s)"
  by (cases b) (auto simp: side_levels_def side_lt_def add_order_def Let_def)

lemma list_nodes_add_order:
  "list_nodes (add_order ord s) =
     (list_nodes s)(next_iter s \<mapsto> \<lparr>order = ord, list_iter = next_iter s\<rparr>)"
  by (simp add: add_order_def Let_def)

lemma order_lookup_add_order:
  "order_lookup (add_order ord s) =
     (order_lookup s)(order_id ord \<mapsto>
        \<lparr>loc_is_buy = is_buy ord, loc_price = price ord, loc_list_iter = next_iter s\<rparr>)"
  by (simp add: add_order_def Let_def)

lemma next_iter_add_order: "next_iter (add_order ord s) = Suc (next_iter s)"
  by (simp add: add_order_def Let_def)

lemmas add_order_proj =
  side_levels_add_order list_nodes_add_order order_lookup_add_order next_iter_add_order

subsection \<open>Levels and the store of nodes\<close>

lemma node_quantity_other:
  "h \<notin> set xs \<Longrightarrow> map (node_quantity (nodes(h := x))) xs = map (node_quantity nodes) xs"
  by (induction xs) (auto simp: node_quantity_def)

lemma level_ok_other:
  "level_ok nodes b k lvl \<Longrightarrow> h \<notin> set (orders lvl) \<Longrightarrow> level_ok (nodes(h := x)) b k lvl"
  unfolding level_ok_def by (auto simp: node_quantity_other)

lemma level_ok_add:
  assumes "lvl = new_level \<or> level_ok nodes (is_buy ord) (price ord) lvl"
    and "it \<notin> set (orders lvl)"
  shows "level_ok (nodes(it \<mapsto> \<lparr>order = ord, list_iter = it\<rparr>)) (is_buy ord) (price ord)
           (add_to_level ord it lvl)"
  using assms unfolding level_ok_def add_to_level_def new_level_def
  by (auto simp: node_quantity_other) (simp_all add: node_quantity_def)

lemma level_ok_remove:
  assumes "level_ok nodes b k lvl" and "it \<in> set (orders lvl)" and "nodes it = Some n"
    and "remove1 it (orders lvl) \<noteq> []"
  shows "level_ok (nodes(it := None)) b k
           (lvl\<lparr>total_quantity := total_quantity lvl - quantity (order n),
                orders := remove1 it (orders lvl)\<rparr>)"
proof -
  from assms(1) have d: "distinct (orders lvl)" by (simp add: level_ok_def)
  then have notin: "it \<notin> set (remove1 it (orders lvl))" by simp
  have "sum_list (map (node_quantity nodes) (orders lvl)) =
          node_quantity nodes it + sum_list (map (node_quantity nodes) (remove1 it (orders lvl)))"
    using assms(2) by (rule sum_list_map_remove1)
  moreover have "node_quantity nodes it = quantity (order n)"
    using assms(3) by (simp add: node_quantity_def)
  ultimately have "total_quantity lvl - quantity (order n) =
      sum_list (map (node_quantity (nodes(it := None))) (remove1 it (orders lvl)))"
    using assms(1) notin by (simp add: level_ok_def node_quantity_other)
  with assms d notin show ?thesis
    unfolding level_ok_def by auto
qed

lemma level_ok_amend:
  assumes "level_ok nodes b k lvl" and "it \<in> set (orders lvl)" and "nodes it = Some n"
  shows "level_ok (nodes(it \<mapsto> n\<lparr>order := (order n)\<lparr>quantity := q\<rparr>\<rparr>)) b k
           (amend_level (order n) q lvl)"
proof -
  let ?nodes = "nodes(it \<mapsto> n\<lparr>order := (order n)\<lparr>quantity := q\<rparr>\<rparr>)"
  from assms(1) have d: "distinct (orders lvl)" by (simp add: level_ok_def)
  then have notin: "it \<notin> set (remove1 it (orders lvl))" by simp
  have s1: "sum_list (map (node_quantity nodes) (orders lvl)) =
          node_quantity nodes it + sum_list (map (node_quantity nodes) (remove1 it (orders lvl)))"
    using assms(2) by (rule sum_list_map_remove1)
  have s2: "sum_list (map (node_quantity ?nodes) (orders lvl)) =
          node_quantity ?nodes it + sum_list (map (node_quantity ?nodes) (remove1 it (orders lvl)))"
    using assms(2) by (rule sum_list_map_remove1)
  have q1: "node_quantity nodes it = quantity (order n)"
    using assms(3) by (simp add: node_quantity_def)
  have q2: "node_quantity ?nodes it = q"
    by (simp add: node_quantity_def)
  have "map (node_quantity ?nodes) (remove1 it (orders lvl)) =
        map (node_quantity nodes) (remove1 it (orders lvl))"
    using notin by (rule node_quantity_other)
  with s1 s2 q1 q2 have "total_quantity lvl - quantity (order n) + q =
      sum_list (map (node_quantity ?nodes) (orders lvl))"
    using assms(1) by (simp add: level_ok_def)
  with assms show ?thesis
    unfolding level_ok_def amend_level_def by auto
qed

lemma book_inv_levelD:
  "book_inv s \<Longrightarrow> levels_find k (side_levels b s) = Some lvl \<Longrightarrow> level_ok (list_nodes s) b k lvl"
  by (simp add: book_inv_def side_ok_def)

lemma book_inv_sortedD:
  "book_inv s \<Longrightarrow> sorted_wrt (side_lt b) (map fst (side_levels b s))"
  by (simp add: book_inv_def side_ok_def)

lemma book_inv_lookupD:
  "book_inv s \<Longrightarrow> order_lookup s oid = Some loc \<Longrightarrow>
     \<exists>lvl n. levels_find (loc_price loc) (side_levels (loc_is_buy loc) s) = Some lvl
           \<and> loc_list_iter loc \<in> set (orders lvl)
           \<and> list_nodes s (loc_list_iter loc) = Some n \<and> order_id (order n) = oid"
  by (simp add: book_inv_def lookup_ok_def)

lemma book_inv_boundD: "book_inv s \<Longrightarrow> list_nodes s h = Some n \<Longrightarrow> h < next_iter s"
  by (auto simp: book_inv_def)

lemma level_ok_nodeD:
  "level_ok nodes b k lvl \<Longrightarrow> h \<in> set (orders lvl) \<Longrightarrow>
     \<exists>n. nodes h = Some n \<and> is_buy (order n) = b \<and> price (order n) = k \<and> list_iter n = h"
  by (auto simp: level_ok_def)

lemma next_iter_fresh:
  assumes "book_inv s" and "levels_find k (side_levels b s) = Some lvl"
  shows "next_iter s \<notin> set (orders lvl)"
proof
  assume "next_iter s \<in> set (orders lvl)"
  with level_ok_nodeD [OF book_inv_levelD [OF assms]]
  obtain n where "list_nodes s (next_iter s) = Some n" by blast
  with book_inv_boundD [OF assms(1)] show False by blast
qed

lemma side_ok_add_order:
  assumes inv: "book_inv s"
  shows "side_ok (list_nodes (add_order ord s)) b (side_levels b (add_order ord s))"
  unfolding side_ok_def
proof (intro conjI allI impI)
  show "sorted_wrt (side_lt b) (map fst (side_levels b (add_order ord s)))"
    using book_inv_sortedD [OF inv, of b]
    by (auto simp: side_levels_add_order keys_modify sorted_subscript)
next
  fix k lvl'
  assume f: "levels_find k (side_levels b (add_order ord s)) = Some lvl'"
  let ?it = "next_iter s"
  show "level_ok (list_nodes (add_order ord s)) b k lvl'"
  proof (cases "b = is_buy ord \<and> k = price ord")
    case True
    define lvl0 where "lvl0 = (case levels_find k (side_levels b s) of None \<Rightarrow> new_level | Some v \<Rightarrow> v)"
    from f True have lvl': "lvl' = add_to_level ord ?it lvl0"
      by (simp add: side_levels_add_order levels_find_modify levels_find_subscript lvl0_def)
    have a: "lvl0 = new_level \<or> level_ok (list_nodes s) (is_buy ord) (price ord) lvl0"
      using True book_inv_levelD [OF inv, of k b] by (auto simp: lvl0_def split: option.splits)
    have b: "?it \<notin> set (orders lvl0)"
      using next_iter_fresh [OF inv, of k b] by (auto simp: lvl0_def new_level_def split: option.splits)
    from level_ok_add [OF a b] True lvl' show ?thesis
      by (simp add: list_nodes_add_order)
  next
    case False
    with f have f0: "levels_find k (side_levels b s) = Some lvl'"
      by (auto simp: side_levels_add_order levels_find_modify levels_find_subscript split: if_splits)
    from level_ok_other [OF book_inv_levelD [OF inv f0] next_iter_fresh [OF inv f0]]
    show ?thesis by (simp add: list_nodes_add_order)
  qed
qed

lemma lookup_ok_add_order:
  assumes inv: "book_inv s"
  shows "lookup_ok (add_order ord s)"
  unfolding lookup_ok_def
proof (intro allI impI)
  fix oid loc
  assume l: "order_lookup (add_order ord s) oid = Some loc"
  let ?it = "next_iter s"
  let ?P = "\<lambda>loc. \<exists>lvl n. levels_find (loc_price loc) (side_levels (loc_is_buy loc) (add_order ord s)) = Some lvl
           \<and> loc_list_iter loc \<in> set (orders lvl)
           \<and> list_nodes (add_order ord s) (loc_list_iter loc) = Some n \<and> order_id (order n) = oid"
  show "?P loc"
  proof (cases "oid = order_id ord")
    case True
    with l have loc: "loc = \<lparr>loc_is_buy = is_buy ord, loc_price = price ord, loc_list_iter = ?it\<rparr>"
      by (simp add: order_lookup_add_order)
    show ?thesis
      unfolding loc using True
      by (simp add: add_order_proj levels_find_modify levels_find_subscript add_to_level_def)
  next
    case False
    with l have l0: "order_lookup s oid = Some loc" by (simp add: order_lookup_add_order)
    from book_inv_lookupD [OF inv l0] obtain lvl n where
      f: "levels_find (loc_price loc) (side_levels (loc_is_buy loc) s) = Some lvl"
      and m: "loc_list_iter loc \<in> set (orders lvl)"
      and n: "list_nodes s (loc_list_iter loc) = Some n" and i: "order_id (order n) = oid"
      by blast
    from book_inv_boundD [OF inv n] have ne: "loc_list_iter loc \<noteq> ?it" by simp
    show ?thesis
    proof (cases "loc_is_buy loc = is_buy ord \<and> loc_price loc = price ord")
      case True
      with f m n i ne show ?thesis
        by (simp add: add_order_proj levels_find_modify levels_find_subscript add_to_level_def)
    next
      case False
      with f m n i ne show ?thesis
        by (auto simp: add_order_proj levels_find_modify levels_find_subscript)
    qed
  qed
qed

lemma book_inv_add_order:
  assumes inv: "book_inv s"
  shows "book_inv (add_order ord s)"
  unfolding book_inv_def
proof (intro conjI allI impI)
  fix b show "side_ok (list_nodes (add_order ord s)) b (side_levels b (add_order ord s))"
    by (rule side_ok_add_order [OF inv])
next
  show "lookup_ok (add_order ord s)" by (rule lookup_ok_add_order [OF inv])
next
  fix h n assume "list_nodes (add_order ord s) h = Some n"
  then show "h < next_iter (add_order ord s)"
    using book_inv_boundD [OF inv, of h]
    by (auto simp: add_order_proj less_Suc_eq split: if_splits)
qed

lemma book_inv_empty: "book_inv empty_book"
  by (simp add: book_inv_def side_ok_def lookup_ok_def empty_book_def side_levels_def)

lemma iter_unique_level:
  assumes inv: "book_inv s"
    and f: "levels_find k (side_levels b s) = Some lvl" and h: "h \<in> set (orders lvl)"
    and f': "levels_find k' (side_levels b' s) = Some lvl'" and h': "h \<in> set (orders lvl')"
  shows "b' = b \<and> k' = k"
  using level_ok_nodeD [OF book_inv_levelD [OF inv f] h]
        level_ok_nodeD [OF book_inv_levelD [OF inv f'] h']
  by auto

lemma levels_find_remove:
  assumes "distinct (map fst m)" and "levels_find k m = Some lvl"
  shows "levels_find k' (remove_from_level k it ord lvl m) =
     (if k' = k
      then (if remove1 it (orders lvl) = [] then None
            else Some (lvl\<lparr>total_quantity := total_quantity lvl - quantity ord,
                           orders := remove1 it (orders lvl)\<rparr>))
      else levels_find k' m)"
  using assms by (simp add: remove_from_level_def Let_def levels_find_erase levels_find_modify)

lemma sorted_remove:
  "sorted_wrt lt (map fst m) \<Longrightarrow> sorted_wrt lt (map fst (remove_from_level k it ord lvl m))"
  by (simp add: remove_from_level_def Let_def sorted_erase keys_modify)

lemma side_levels_cancelled:
  "side_levels b (cancelled oid loc n lvl s) =
     (if b = loc_is_buy loc
      then remove_from_level (loc_price loc) (loc_list_iter loc) (order n) lvl (side_levels b s)
      else side_levels b s)"
  by (cases b) (auto simp: cancelled_def side_levels_def Let_def)

lemma list_nodes_cancelled:
  "list_nodes (cancelled oid loc n lvl s) = (list_nodes s)(loc_list_iter loc := None)"
  by (simp add: cancelled_def Let_def)

lemma order_lookup_cancelled:
  "order_lookup (cancelled oid loc n lvl s) = (order_lookup s)(oid := None)"
  by (simp add: cancelled_def Let_def)

lemma next_iter_cancelled: "next_iter (cancelled oid loc n lvl s) = next_iter s"
  by (simp add: cancelled_def Let_def)

lemmas cancelled_proj =
  side_levels_cancelled list_nodes_cancelled order_lookup_cancelled next_iter_cancelled

lemma cancel_order_absent: "order_lookup s oid = None \<Longrightarrow> cancel_order oid s = Some (False, s)"
  by (simp add: cancel_order_def)

lemma cancel_order_present:
  assumes "order_lookup s oid = Some loc"
    and "levels_find (loc_price loc) (side_levels (loc_is_buy loc) s) = Some lvl"
    and "loc_list_iter loc \<in> set (orders lvl)"
    and "list_nodes s (loc_list_iter loc) = Some n"
  shows "cancel_order oid s = Some (True, cancelled oid loc n lvl s)"
  using assms by (cases "loc_is_buy loc") (simp_all add: cancel_order_def cancelled_def side_levels_def Let_def)

lemma book_inv_distinct: "book_inv s \<Longrightarrow> distinct (map fst (side_levels b s))"
  by (rule sorted_side_distinct [OF book_inv_sortedD])

lemma side_ok_cancelled:
  assumes inv: "book_inv s"
    and f: "levels_find (loc_price loc) (side_levels (loc_is_buy loc) s) = Some lvl"
    and m: "loc_list_iter loc \<in> set (orders lvl)"
    and n: "list_nodes s (loc_list_iter loc) = Some n"
  shows "side_ok (list_nodes (cancelled oid loc n lvl s)) b (side_levels b (cancelled oid loc n lvl s))"
  unfolding side_ok_def
proof (intro conjI allI impI)
  show "sorted_wrt (side_lt b) (map fst (side_levels b (cancelled oid loc n lvl s)))"
    using book_inv_sortedD [OF inv, of b] by (auto simp: side_levels_cancelled sorted_remove)
next
  fix k lvl'
  assume f': "levels_find k (side_levels b (cancelled oid loc n lvl s)) = Some lvl'"
  let ?it = "loc_list_iter loc"
  show "level_ok (list_nodes (cancelled oid loc n lvl s)) b k lvl'"
  proof (cases "b = loc_is_buy loc \<and> k = loc_price loc")
    case True
    with f' f book_inv_distinct [OF inv, of b]
    have ne: "remove1 ?it (orders lvl) \<noteq> []"
      and lvl': "lvl' = lvl\<lparr>total_quantity := total_quantity lvl - quantity (order n),
                           orders := remove1 ?it (orders lvl)\<rparr>"
      by (auto simp: side_levels_cancelled levels_find_remove split: if_splits)
    from level_ok_remove [OF book_inv_levelD [OF inv f] m n ne] True lvl'
    show ?thesis by (simp add: list_nodes_cancelled)
  next
    case False
    with f' f book_inv_distinct [OF inv, of b]
    have f0: "levels_find k (side_levels b s) = Some lvl'"
      by (auto simp: side_levels_cancelled levels_find_remove split: if_splits)
    have "?it \<notin> set (orders lvl')"
      using iter_unique_level [OF inv f m f0] False by blast
    from level_ok_other [OF book_inv_levelD [OF inv f0] this]
    show ?thesis by (simp add: list_nodes_cancelled)
  qed
qed

lemma lookup_ok_cancelled:
  assumes inv: "book_inv s"
    and f: "levels_find (loc_price loc) (side_levels (loc_is_buy loc) s) = Some lvl"
    and m: "loc_list_iter loc \<in> set (orders lvl)"
    and n: "list_nodes s (loc_list_iter loc) = Some n" and i: "order_id (order n) = oid"
  shows "lookup_ok (cancelled oid loc n lvl s)"
  unfolding lookup_ok_def
proof (intro allI impI)
  fix oid' loc'
  let ?s' = "cancelled oid loc n lvl s"
  assume "order_lookup ?s' oid' = Some loc'"
  then have neq: "oid' \<noteq> oid" and l0: "order_lookup s oid' = Some loc'"
    by (auto simp: order_lookup_cancelled split: if_splits)
  from book_inv_lookupD [OF inv l0] obtain lvl1 n1 where
    f1: "levels_find (loc_price loc') (side_levels (loc_is_buy loc') s) = Some lvl1"
    and m1: "loc_list_iter loc' \<in> set (orders lvl1)"
    and n1: "list_nodes s (loc_list_iter loc') = Some n1" and i1: "order_id (order n1) = oid'"
    by blast
  from n n1 i i1 neq have ne: "loc_list_iter loc' \<noteq> loc_list_iter loc" by auto
  show "\<exists>lvl n. levels_find (loc_price loc') (side_levels (loc_is_buy loc') ?s') = Some lvl
           \<and> loc_list_iter loc' \<in> set (orders lvl)
           \<and> list_nodes ?s' (loc_list_iter loc') = Some n \<and> order_id (order n) = oid'"
  proof (cases "loc_is_buy loc' = loc_is_buy loc \<and> loc_price loc' = loc_price loc")
    case True
    with f f1 have "lvl1 = lvl" by simp
    with m1 ne have mem: "loc_list_iter loc' \<in> set (remove1 (loc_list_iter loc) (orders lvl))"
      by simp
    then have ne1: "remove1 (loc_list_iter loc) (orders lvl) \<noteq> []" by auto
    have "levels_find (loc_price loc') (side_levels (loc_is_buy loc') ?s') =
        Some (lvl\<lparr>total_quantity := total_quantity lvl - quantity (order n),
                           orders := remove1 (loc_list_iter loc) (orders lvl)\<rparr>)"
      using True f ne1 book_inv_distinct [OF inv, of "loc_is_buy loc"]
      by (simp add: cancelled_proj levels_find_remove)
    moreover have "list_nodes ?s' (loc_list_iter loc') = Some n1"
      using n1 ne by (simp add: cancelled_proj)
    ultimately show ?thesis using mem i1 by simp
  next
    case False
    with f f1 m1 n1 i1 ne book_inv_distinct [OF inv, of "loc_is_buy loc"] show ?thesis
      by (auto simp: cancelled_proj levels_find_remove)
  qed
qed

lemma book_inv_cancelled:
  assumes inv: "book_inv s"
    and f: "levels_find (loc_price loc) (side_levels (loc_is_buy loc) s) = Some lvl"
    and m: "loc_list_iter loc \<in> set (orders lvl)"
    and n: "list_nodes s (loc_list_iter loc) = Some n" and i: "order_id (order n) = oid"
  shows "book_inv (cancelled oid loc n lvl s)"
  unfolding book_inv_def
proof (intro conjI allI impI)
  fix b show "side_ok (list_nodes (cancelled oid loc n lvl s)) b (side_levels b (cancelled oid loc n lvl s))"
    by (rule side_ok_cancelled [OF inv f m n])
next
  show "lookup_ok (cancelled oid loc n lvl s)" by (rule lookup_ok_cancelled [OF inv f m n i])
next
  fix h n' assume "list_nodes (cancelled oid loc n lvl s) h = Some n'"
  then show "h < next_iter (cancelled oid loc n lvl s)"
    using book_inv_boundD [OF inv, of h]
    by (auto simp: cancelled_proj split: if_splits)
qed

text \<open>On a book that satisfies the invariant, \<open>cancel_order\<close> returns; this is what it returns.\<close>

lemma cancel_order_cases:
  assumes inv: "book_inv s"
  shows "(order_lookup s oid = None \<and> cancel_order oid s = Some (False, s)) \<or>
         (\<exists>loc lvl n. order_lookup s oid = Some loc
            \<and> levels_find (loc_price loc) (side_levels (loc_is_buy loc) s) = Some lvl
            \<and> loc_list_iter loc \<in> set (orders lvl)
            \<and> list_nodes s (loc_list_iter loc) = Some n \<and> order_id (order n) = oid
            \<and> cancel_order oid s = Some (True, cancelled oid loc n lvl s))"
proof (cases "order_lookup s oid")
  case None
  then show ?thesis by (simp add: cancel_order_absent)
next
  case (Some loc)
  from book_inv_lookupD [OF inv Some] obtain lvl n where
    "levels_find (loc_price loc) (side_levels (loc_is_buy loc) s) = Some lvl"
    "loc_list_iter loc \<in> set (orders lvl)"
    "list_nodes s (loc_list_iter loc) = Some n" "order_id (order n) = oid"
    by blast
  with Some cancel_order_present [of s oid loc lvl n] show ?thesis by auto
qed

lemma book_inv_cancel_order:
  assumes inv: "book_inv s" and c: "cancel_order oid s = Some (r, s')"
  shows "book_inv s'"
  using cancel_order_cases [OF inv, of oid] c inv
  by (auto intro: book_inv_cancelled)

lemma side_levels_amended:
  "side_levels b (amended loc n q s) =
     (if b = loc_is_buy loc
      then levels_modify (loc_price loc) (amend_level (order n) q) (side_levels b s)
      else side_levels b s)"
  by (cases b) (auto simp: amended_def side_levels_def Let_def)

lemma list_nodes_amended:
  "list_nodes (amended loc n q s) =
     (list_nodes s)(loc_list_iter loc \<mapsto> n\<lparr>order := (order n)\<lparr>quantity := q\<rparr>\<rparr>)"
  by (simp add: amended_def Let_def)

lemma order_lookup_amended: "order_lookup (amended loc n q s) = order_lookup s"
  by (simp add: amended_def Let_def)

lemma next_iter_amended: "next_iter (amended loc n q s) = next_iter s"
  by (simp add: amended_def Let_def)

lemmas amended_proj =
  side_levels_amended list_nodes_amended order_lookup_amended next_iter_amended

lemma amend_order_absent:
  "order_lookup s oid = None \<Longrightarrow> amend_order oid p q s = Some (False, s)"
  by (simp add: amend_order_def)

lemma amend_order_same_price:
  assumes "order_lookup s oid = Some loc"
    and "levels_find (loc_price loc) (side_levels (loc_is_buy loc) s) = Some lvl"
    and "list_nodes s (loc_list_iter loc) = Some n"
    and "price (order n) = p"
  shows "amend_order oid p q s = Some (True, amended loc n q s)"
  using assms
  by (cases "loc_is_buy loc") (simp_all add: amend_order_def amended_def side_levels_def Let_def)

lemma amend_order_new_price:
  assumes "order_lookup s oid = Some loc"
    and "list_nodes s (loc_list_iter loc) = Some n"
    and "price (order n) \<noteq> p"
    and "cancel_order oid s = Some (r, s1)"
  shows "amend_order oid p q s =
           Some (True, add_order ((order n)\<lparr>price := p, quantity := q\<rparr>) s1)"
  using assms by (simp add: amend_order_def Let_def)

lemma side_ok_amended:
  assumes inv: "book_inv s"
    and f: "levels_find (loc_price loc) (side_levels (loc_is_buy loc) s) = Some lvl"
    and m: "loc_list_iter loc \<in> set (orders lvl)"
    and n: "list_nodes s (loc_list_iter loc) = Some n"
  shows "side_ok (list_nodes (amended loc n q s)) b (side_levels b (amended loc n q s))"
  unfolding side_ok_def
proof (intro conjI allI impI)
  show "sorted_wrt (side_lt b) (map fst (side_levels b (amended loc n q s)))"
    using book_inv_sortedD [OF inv, of b] by (auto simp: side_levels_amended keys_modify)
next
  fix k lvl'
  assume f': "levels_find k (side_levels b (amended loc n q s)) = Some lvl'"
  show "level_ok (list_nodes (amended loc n q s)) b k lvl'"
  proof (cases "b = loc_is_buy loc \<and> k = loc_price loc")
    case True
    with f' f have lvl': "lvl' = amend_level (order n) q lvl"
      by (auto simp: side_levels_amended levels_find_modify)
    from level_ok_amend [OF book_inv_levelD [OF inv f] m n] True lvl'
    show ?thesis by (simp add: list_nodes_amended)
  next
    case False
    with f' have f0: "levels_find k (side_levels b s) = Some lvl'"
      by (auto simp: side_levels_amended levels_find_modify split: if_splits)
    have "loc_list_iter loc \<notin> set (orders lvl')"
      using iter_unique_level [OF inv f m f0] False by blast
    from level_ok_other [OF book_inv_levelD [OF inv f0] this]
    show ?thesis by (simp add: list_nodes_amended)
  qed
qed

lemma lookup_ok_amended:
  assumes inv: "book_inv s"
    and n: "list_nodes s (loc_list_iter loc) = Some n"
  shows "lookup_ok (amended loc n q s)"
  unfolding lookup_ok_def
proof (intro allI impI)
  fix oid' loc'
  let ?s' = "amended loc n q s"
  assume "order_lookup ?s' oid' = Some loc'"
  then have l0: "order_lookup s oid' = Some loc'" by (simp add: order_lookup_amended)
  from book_inv_lookupD [OF inv l0] obtain lvl1 n1 where
    f1: "levels_find (loc_price loc') (side_levels (loc_is_buy loc') s) = Some lvl1"
    and m1: "loc_list_iter loc' \<in> set (orders lvl1)"
    and n1: "list_nodes s (loc_list_iter loc') = Some n1" and i1: "order_id (order n1) = oid'"
    by blast
  have "\<exists>lvl. levels_find (loc_price loc') (side_levels (loc_is_buy loc') ?s') = Some lvl
           \<and> loc_list_iter loc' \<in> set (orders lvl)"
    using f1 m1 by (auto simp: side_levels_amended levels_find_modify amend_level_def)
  moreover have "\<exists>n'. list_nodes ?s' (loc_list_iter loc') = Some n' \<and> order_id (order n') = oid'"
    using n n1 i1 by (auto simp: list_nodes_amended)
  ultimately show "\<exists>lvl n. levels_find (loc_price loc') (side_levels (loc_is_buy loc') ?s') = Some lvl
           \<and> loc_list_iter loc' \<in> set (orders lvl)
           \<and> list_nodes ?s' (loc_list_iter loc') = Some n \<and> order_id (order n) = oid'"
    by blast
qed

lemma book_inv_amended:
  assumes inv: "book_inv s"
    and f: "levels_find (loc_price loc) (side_levels (loc_is_buy loc) s) = Some lvl"
    and m: "loc_list_iter loc \<in> set (orders lvl)"
    and n: "list_nodes s (loc_list_iter loc) = Some n"
  shows "book_inv (amended loc n q s)"
  unfolding book_inv_def
proof (intro conjI allI impI)
  fix b show "side_ok (list_nodes (amended loc n q s)) b (side_levels b (amended loc n q s))"
    by (rule side_ok_amended [OF inv f m n])
next
  show "lookup_ok (amended loc n q s)" by (rule lookup_ok_amended [OF inv n])
next
  fix h n' assume "list_nodes (amended loc n q s) h = Some n'"
  then show "h < next_iter (amended loc n q s)"
    using book_inv_boundD [OF inv, of h] book_inv_boundD [OF inv n]
    by (auto simp: amended_proj split: if_splits)
qed

lemma amend_order_cases:
  assumes inv: "book_inv s"
  shows "(order_lookup s oid = None \<and> amend_order oid p q s = Some (False, s)) \<or>
         (\<exists>loc lvl n. order_lookup s oid = Some loc
            \<and> levels_find (loc_price loc) (side_levels (loc_is_buy loc) s) = Some lvl
            \<and> loc_list_iter loc \<in> set (orders lvl)
            \<and> list_nodes s (loc_list_iter loc) = Some n \<and> order_id (order n) = oid
            \<and> is_buy (order n) = loc_is_buy loc \<and> price (order n) = loc_price loc
            \<and> amend_order oid p q s =
                Some (True,
                  if loc_price loc \<noteq> p
                  then add_order ((order n)\<lparr>price := p, quantity := q\<rparr>) (cancelled oid loc n lvl s)
                  else amended loc n q s))"
proof (cases "order_lookup s oid")
  case None
  then show ?thesis by (simp add: amend_order_absent)
next
  case (Some loc)
  from book_inv_lookupD [OF inv Some] obtain lvl n where
    f: "levels_find (loc_price loc) (side_levels (loc_is_buy loc) s) = Some lvl"
    and m: "loc_list_iter loc \<in> set (orders lvl)"
    and n: "list_nodes s (loc_list_iter loc) = Some n" and i: "order_id (order n) = oid"
    by blast
  from level_ok_nodeD [OF book_inv_levelD [OF inv f] m] n
  have b: "is_buy (order n) = loc_is_buy loc" and k: "price (order n) = loc_price loc"
    by auto
  have "amend_order oid p q s =
                Some (True,
                  if loc_price loc \<noteq> p
                  then add_order ((order n)\<lparr>price := p, quantity := q\<rparr>) (cancelled oid loc n lvl s)
                  else amended loc n q s)"
  proof (cases "loc_price loc = p")
    case True
    with amend_order_same_price [OF Some f n] k show ?thesis by simp
  next
    case False
    with amend_order_new_price [OF Some n _ cancel_order_present [OF Some f m n]] k
    show ?thesis by simp
  qed
  with Some f m n i b k show ?thesis by blast
qed

lemma book_inv_amend_order:
  assumes inv: "book_inv s" and c: "amend_order oid p q s = Some (r, s')"
  shows "book_inv s'"
  using amend_order_cases [OF inv, of oid p q] c inv
  by (auto intro: book_inv_amended book_inv_cancelled book_inv_add_order split: if_splits)

lemma reachable_inv: "reachable s \<Longrightarrow> book_inv s"
  by (induction rule: reachable.induct)
     (auto intro: book_inv_empty book_inv_add_order book_inv_cancel_order book_inv_amend_order)

lemma fresh_reachable: "reachable_fresh s \<Longrightarrow> reachable s"
  by (induction rule: reachable_fresh.induct) (auto intro: reachable.intros)

lemma levels_of_mem:
  "distinct (map fst (bids s)) \<Longrightarrow> distinct (map fst (asks s)) \<Longrightarrow>
   (b, k, lvl) \<in> set (levels_of s) \<longleftrightarrow> levels_find k (side_levels b s) = Some lvl"
  by (cases b) (auto simp: levels_of_def side_levels_def levels_find_mem)

lemma book_inv_levels_of:
  "book_inv s \<Longrightarrow> (b, k, lvl) \<in> set (levels_of s) \<longleftrightarrow> levels_find k (side_levels b s) = Some lvl"
  using book_inv_distinct [of s True] book_inv_distinct [of s False]
  by (intro levels_of_mem) (simp_all add: side_levels_def)

lemma all_indexed_add_order:
  assumes inv: "book_inv s" and ai: "all_indexed s" and fr: "order_lookup s (order_id ord) = None"
  shows "all_indexed (add_order ord s)"
  unfolding all_indexed_def
proof (intro allI impI ballI)
  fix b k lvl' h
  let ?s' = "add_order ord s" and ?it = "next_iter s"
  assume f': "levels_find k (side_levels b ?s') = Some lvl'" and h: "h \<in> set (orders lvl')"
  show "\<exists>n. list_nodes ?s' h = Some n \<and>
           order_lookup ?s' (order_id (order n)) = Some \<lparr>loc_is_buy = b, loc_price = k, loc_list_iter = h\<rparr>"
  proof (cases "b = is_buy ord \<and> k = price ord \<and> h = ?it")
    case True
    then show ?thesis by (simp add: add_order_proj)
  next
    case False
    have "\<exists>lvl. levels_find k (side_levels b s) = Some lvl \<and> h \<in> set (orders lvl)"
    proof (cases "b = is_buy ord \<and> k = price ord")
      case True
      with False have "h \<noteq> ?it" by simp
      with f' h True show ?thesis
        by (auto simp: add_order_proj levels_find_modify levels_find_subscript add_to_level_def
              new_level_def split: option.splits)
    next
      case False
      with f' h show ?thesis
        by (auto simp: add_order_proj levels_find_modify levels_find_subscript split: if_splits)
    qed
    then obtain lvl where f: "levels_find k (side_levels b s) = Some lvl" and hl: "h \<in> set (orders lvl)"
      by blast
    from ai f hl obtain n where n: "list_nodes s h = Some n"
      and l: "order_lookup s (order_id (order n)) = Some \<lparr>loc_is_buy = b, loc_price = k, loc_list_iter = h\<rparr>"
      unfolding all_indexed_def by blast
    from book_inv_boundD [OF inv n] have "h \<noteq> ?it" by simp
    moreover from l fr have "order_id (order n) \<noteq> order_id ord" by auto
    ultimately show ?thesis using n l by (simp add: add_order_proj)
  qed
qed

lemma all_indexed_cancelled:
  assumes inv: "book_inv s" and ai: "all_indexed s"
    and lk: "order_lookup s oid = Some loc"
    and f: "levels_find (loc_price loc) (side_levels (loc_is_buy loc) s) = Some lvl"
    and m: "loc_list_iter loc \<in> set (orders lvl)"
    and n: "list_nodes s (loc_list_iter loc) = Some n"
  shows "all_indexed (cancelled oid loc n lvl s)"
  unfolding all_indexed_def
proof (intro allI impI ballI)
  fix b k lvl' h
  let ?s' = "cancelled oid loc n lvl s" and ?it = "loc_list_iter loc"
  assume f': "levels_find k (side_levels b ?s') = Some lvl'" and h: "h \<in> set (orders lvl')"
  from book_inv_levelD [OF inv f] have d: "distinct (orders lvl)" by (simp add: level_ok_def)
  have "\<exists>lvl0. levels_find k (side_levels b s) = Some lvl0 \<and> h \<in> set (orders lvl0) \<and> h \<noteq> ?it"
  proof (cases "b = loc_is_buy loc \<and> k = loc_price loc")
    case True
    with f' f h d book_inv_distinct [OF inv, of b] show ?thesis
      by (auto simp: cancelled_proj levels_find_remove split: if_splits)
  next
    case False
    with f' f book_inv_distinct [OF inv, of b]
    have f0: "levels_find k (side_levels b s) = Some lvl'"
      by (auto simp: cancelled_proj levels_find_remove split: if_splits)
    with iter_unique_level [OF inv f m f0] False h show ?thesis by blast
  qed
  then obtain lvl0 where f0: "levels_find k (side_levels b s) = Some lvl0"
    and h0: "h \<in> set (orders lvl0)" and ne: "h \<noteq> ?it" by blast
  from ai f0 h0 obtain n0 where n0: "list_nodes s h = Some n0"
    and l0: "order_lookup s (order_id (order n0)) = Some \<lparr>loc_is_buy = b, loc_price = k, loc_list_iter = h\<rparr>"
    unfolding all_indexed_def by blast
  from l0 lk ne have "order_id (order n0) \<noteq> oid" by auto
  with n0 l0 ne show "\<exists>n. list_nodes ?s' h = Some n \<and>
           order_lookup ?s' (order_id (order n)) = Some \<lparr>loc_is_buy = b, loc_price = k, loc_list_iter = h\<rparr>"
    by (simp add: cancelled_proj)
qed

lemma all_indexed_amended:
  assumes ai: "all_indexed s" and n: "list_nodes s (loc_list_iter loc) = Some n"
  shows "all_indexed (amended loc n q s)"
  unfolding all_indexed_def
proof (intro allI impI ballI)
  fix b k lvl' h
  let ?s' = "amended loc n q s"
  assume f': "levels_find k (side_levels b ?s') = Some lvl'" and h: "h \<in> set (orders lvl')"
  then have "\<exists>lvl0. levels_find k (side_levels b s) = Some lvl0 \<and> h \<in> set (orders lvl0)"
    by (auto simp: amended_proj levels_find_modify amend_level_def split: if_splits)
  then obtain lvl0 where f0: "levels_find k (side_levels b s) = Some lvl0"
    and h0: "h \<in> set (orders lvl0)" by blast
  from ai f0 h0 obtain n0 where n0: "list_nodes s h = Some n0"
    and l0: "order_lookup s (order_id (order n0)) = Some \<lparr>loc_is_buy = b, loc_price = k, loc_list_iter = h\<rparr>"
    unfolding all_indexed_def by blast
  with n show "\<exists>n. list_nodes ?s' h = Some n \<and>
           order_lookup ?s' (order_id (order n)) = Some \<lparr>loc_is_buy = b, loc_price = k, loc_list_iter = h\<rparr>"
    by (auto simp: amended_proj)
qed

lemma fresh_all_indexed: "reachable_fresh s \<Longrightarrow> all_indexed s"
proof (induction rule: reachable_fresh.induct)
  case fresh_empty
  then show ?case by (simp add: all_indexed_def empty_book_def side_levels_def)
next
  case (fresh_add s ord)
  then show ?case
    by (intro all_indexed_add_order reachable_inv fresh_reachable)
next
  case (fresh_cancel s oid r s')
  from fresh_cancel.hyps(1) have inv: "book_inv s" by (intro reachable_inv fresh_reachable)
  from cancel_order_cases [OF inv, of oid] fresh_cancel.hyps(2) fresh_cancel.IH inv
  show ?case by (auto intro: all_indexed_cancelled)
next
  case (fresh_amend s oid p q r s')
  from fresh_amend.hyps(1) have inv: "book_inv s" by (intro reachable_inv fresh_reachable)
  from amend_order_cases [OF inv, of oid p q]
  show ?case
  proof (elim disjE conjE exE)
    assume "order_lookup s oid = None" "amend_order oid p q s = Some (False, s)"
    with fresh_amend show ?thesis by simp
  next
    fix loc lvl n
    assume lk: "order_lookup s oid = Some loc"
      and f: "levels_find (loc_price loc) (side_levels (loc_is_buy loc) s) = Some lvl"
      and m: "loc_list_iter loc \<in> set (orders lvl)"
      and n: "list_nodes s (loc_list_iter loc) = Some n" and i: "order_id (order n) = oid"
      and a: "amend_order oid p q s =
                Some (True,
                  if loc_price loc \<noteq> p
                  then add_order ((order n)\<lparr>price := p, quantity := q\<rparr>) (cancelled oid loc n lvl s)
                  else amended loc n q s)"
    show ?thesis
    proof (cases "loc_price loc = p")
      case True
      with a fresh_amend.hyps(2) have "s' = amended loc n q s" by simp
      with all_indexed_amended [OF fresh_amend.IH n] show ?thesis by simp
    next
      case False
      with a fresh_amend.hyps(2)
      have s': "s' = add_order ((order n)\<lparr>price := p, quantity := q\<rparr>) (cancelled oid loc n lvl s)"
        by simp
      have "all_indexed (add_order ((order n)\<lparr>price := p, quantity := q\<rparr>) (cancelled oid loc n lvl s))"
        using i
        by (intro all_indexed_add_order book_inv_cancelled [OF inv f m n i]
              all_indexed_cancelled [OF inv fresh_amend.IH lk f m n])
           (simp add: cancelled_proj)
      with s' show ?thesis by simp
    qed
  qed
qed

subsection \<open>An order that the index knows\<close>

lemma order_found:
  assumes inv: "book_inv s" and lk: "order_lookup s oid = Some loc"
    and n: "list_nodes s (loc_list_iter loc) = Some n"
  obtains lvl where "levels_find (loc_price loc) (side_levels (loc_is_buy loc) s) = Some lvl"
    and "loc_list_iter loc \<in> set (orders lvl)"
    and "order_id (order n) = oid" and "is_buy (order n) = loc_is_buy loc"
    and "price (order n) = loc_price loc"
    and "cancel_order oid s = Some (True, cancelled oid loc n lvl s)"
proof -
  from book_inv_lookupD [OF inv lk] n obtain lvl where
    f: "levels_find (loc_price loc) (side_levels (loc_is_buy loc) s) = Some lvl"
    and m: "loc_list_iter loc \<in> set (orders lvl)" and i: "order_id (order n) = oid"
    by auto
  from level_ok_nodeD [OF book_inv_levelD [OF inv f] m] n
  have b: "is_buy (order n) = loc_is_buy loc" and k: "price (order n) = loc_price loc"
    by auto
  from that [OF f m i b k cancel_order_present [OF lk f m n]] show thesis .
qed

subsection \<open>Adding an order and cancelling it again\<close>

lemma remove1_snoc: "x \<notin> set xs \<Longrightarrow> remove1 x (xs @ [x]) = xs"
  by (simp add: remove1_append)

lemma add_then_cancel_side:
  assumes "\<And>lvl. levels_find k m = Some lvl \<Longrightarrow>
             orders lvl \<noteq> [] \<and> level_price lvl = k \<and> it \<notin> set (orders lvl)"
    and "price ord = k"
  shows "remove_from_level k it ord
           (add_to_level ord it (case levels_find k m of None \<Rightarrow> new_level | Some v \<Rightarrow> v))
           (levels_modify k (add_to_level ord it) (levels_subscript lt k m)) = m"
proof (cases "levels_find k m")
  case None
  then show ?thesis
    by (simp add: remove_from_level_def add_to_level_def new_level_def levels_subscript_def
          levels_erase_insert)
next
  case (Some lvl)
  from assms(1) [OF Some] have ne: "orders lvl \<noteq> []" and p: "level_price lvl = k"
    and fr: "it \<notin> set (orders lvl)" by simp_all
  have "(\<lambda>_. add_to_level ord it lvl
            \<lparr>total_quantity := total_quantity (add_to_level ord it lvl) - quantity ord,
             orders := remove1 it (orders (add_to_level ord it lvl))\<rparr>) \<circ> add_to_level ord it =
        (\<lambda>_. lvl)"
    using p fr assms(2) by (simp add: add_to_level_def remove1_snoc fun_eq_iff)
  with Some ne fr show ?thesis
    by (simp add: remove_from_level_def levels_subscript_def levels_modify_modify
          levels_modify_id add_to_level_def remove1_snoc)
qed

subsection \<open>A node that no entry refers to stays in its list\<close>

lemma in_queue_iff:
  "in_queue h b k s \<longleftrightarrow> (\<exists>lvl. levels_find k (side_levels b s) = Some lvl \<and> h \<in> set (orders lvl))"
  by (auto simp: in_queue_def split: option.splits)

lemma in_queue_bound:
  assumes "book_inv s" and "in_queue h b k s"
  shows "h < next_iter s"
proof -
  from assms(2) obtain lvl where f: "levels_find k (side_levels b s) = Some lvl"
    and h: "h \<in> set (orders lvl)" by (auto simp: in_queue_iff)
  from level_ok_nodeD [OF book_inv_levelD [OF assms(1) f] h] book_inv_boundD [OF assms(1)]
  show ?thesis by blast
qed

lemma in_queue_add_order: "in_queue h b k s \<Longrightarrow> in_queue h b k (add_order ord s)"
  by (auto simp: in_queue_iff add_order_proj levels_find_modify levels_find_subscript
        add_to_level_def)

lemma unreferenced_add_order:
  assumes "book_inv s" and "in_queue h b k s" and "unreferenced h s"
  shows "unreferenced h (add_order ord s)"
  using in_queue_bound [OF assms(1,2)] assms(3)
  by (auto simp: unreferenced_def add_order_proj split: if_splits)

lemma in_queue_cancelled:
  assumes inv: "book_inv s" and q: "in_queue h b k s" and u: "unreferenced h s"
    and lk: "order_lookup s oid = Some loc"
    and f: "levels_find (loc_price loc) (side_levels (loc_is_buy loc) s) = Some lvl"
  shows "in_queue h b k (cancelled oid loc n lvl s)"
proof -
  from u lk have ne: "h \<noteq> loc_list_iter loc" by (auto simp: unreferenced_def)
  from q obtain lvl0 where f0: "levels_find k (side_levels b s) = Some lvl0"
    and h: "h \<in> set (orders lvl0)" by (auto simp: in_queue_iff)
  show ?thesis
  proof (cases "b = loc_is_buy loc \<and> k = loc_price loc")
    case True
    with f f0 have "lvl0 = lvl" by simp
    with h ne have mem: "h \<in> set (remove1 (loc_list_iter loc) (orders lvl))" by simp
    then have ne1: "remove1 (loc_list_iter loc) (orders lvl) \<noteq> []" by auto
    have "levels_find k (side_levels b (cancelled oid loc n lvl s)) =
        Some (lvl\<lparr>total_quantity := total_quantity lvl - quantity (order n),
                           orders := remove1 (loc_list_iter loc) (orders lvl)\<rparr>)"
      using True f ne1 book_inv_distinct [OF inv, of b]
      by (simp add: cancelled_proj levels_find_remove)
    with mem show ?thesis by (simp add: in_queue_iff)
  next
    case False
    with f f0 book_inv_distinct [OF inv, of b]
    have "levels_find k (side_levels b (cancelled oid loc n lvl s)) = Some lvl0"
      by (auto simp: cancelled_proj levels_find_remove)
    with h show ?thesis by (simp add: in_queue_iff)
  qed
qed

lemma unreferenced_cancelled:
  "unreferenced h s \<Longrightarrow> unreferenced h (cancelled oid loc n lvl s)"
  by (auto simp: unreferenced_def cancelled_proj split: if_splits)

lemma in_queue_amended: "in_queue h b k s \<Longrightarrow> in_queue h b k (amended loc n q s)"
  by (auto simp: in_queue_iff amended_proj levels_find_modify amend_level_def)

lemma unreferenced_amended: "unreferenced h s \<Longrightarrow> unreferenced h (amended loc n q s)"
  by (simp add: unreferenced_def amended_proj)

lemma orphan_apply:
  assumes inv: "book_inv s" and q: "in_queue h b k s" and u: "unreferenced h s"
  shows "\<exists>s'. apply_operation x s = Some s' \<and> book_inv s' \<and> in_queue h b k s' \<and> unreferenced h s'"
proof (cases x)
  case (Add ord)
  with inv q u show ?thesis
    by (simp add: book_inv_add_order in_queue_add_order unreferenced_add_order)
next
  case (Cancel oid)
  from cancel_order_cases [OF inv, of oid] show ?thesis
  proof (elim disjE conjE exE)
    assume "cancel_order oid s = Some (False, s)"
    with Cancel inv q u show ?thesis by simp
  next
    fix loc lvl n
    assume lk: "order_lookup s oid = Some loc"
      and f: "levels_find (loc_price loc) (side_levels (loc_is_buy loc) s) = Some lvl"
      and m: "loc_list_iter loc \<in> set (orders lvl)"
      and n: "list_nodes s (loc_list_iter loc) = Some n" and i: "order_id (order n) = oid"
      and c: "cancel_order oid s = Some (True, cancelled oid loc n lvl s)"
    from c Cancel book_inv_cancelled [OF inv f m n i] in_queue_cancelled [OF inv q u lk f]
      unreferenced_cancelled [OF u]
    show ?thesis by simp
  qed
next
  case (Amend oid p q')
  from amend_order_cases [OF inv, of oid p q'] show ?thesis
  proof (elim disjE conjE exE)
    assume "amend_order oid p q' s = Some (False, s)"
    with Amend inv q u show ?thesis by simp
  next
    fix loc lvl n
    assume lk: "order_lookup s oid = Some loc"
      and f: "levels_find (loc_price loc) (side_levels (loc_is_buy loc) s) = Some lvl"
      and m: "loc_list_iter loc \<in> set (orders lvl)"
      and n: "list_nodes s (loc_list_iter loc) = Some n" and i: "order_id (order n) = oid"
      and a: "amend_order oid p q' s =
                Some (True,
                  if loc_price loc \<noteq> p
                  then add_order ((order n)\<lparr>price := p, quantity := q'\<rparr>) (cancelled oid loc n lvl s)
                  else amended loc n q' s)"
    show ?thesis
    proof (cases "loc_price loc = p")
      case True
      with a Amend book_inv_amended [OF inv f m n] in_queue_amended [OF q] unreferenced_amended [OF u]
      show ?thesis by simp
    next
      case False
      let ?s1 = "cancelled oid loc n lvl s"
      have inv1: "book_inv ?s1" by (rule book_inv_cancelled [OF inv f m n i])
      have q1: "in_queue h b k ?s1" by (rule in_queue_cancelled [OF inv q u lk f])
      have u1: "unreferenced h ?s1" by (rule unreferenced_cancelled [OF u])
      from False a Amend book_inv_add_order [OF inv1] in_queue_add_order [OF q1]
        unreferenced_add_order [OF inv1 q1 u1]
      show ?thesis by simp
    qed
  qed
qed

lemma orphan_run:
  "book_inv s \<Longrightarrow> in_queue h b k s \<Longrightarrow> unreferenced h s \<Longrightarrow>
   \<exists>s'. run ops s = Some s' \<and> book_inv s' \<and> in_queue h b k s' \<and> unreferenced h s'"
proof (induction ops arbitrary: s)
  case Nil
  then show ?case by simp
next
  case (Cons x ops)
  from orphan_apply [OF Cons.prems, of x] obtain s1 where
    "apply_operation x s = Some s1" "book_inv s1" "in_queue h b k s1" "unreferenced h s1"
    by blast
  with Cons.IH [of s1] show ?case by simp
qed

lemma shadowed_unreferenced:
  assumes inv: "book_inv s" and lk: "order_lookup s (order_id ord) = Some loc"
  shows "unreferenced (loc_list_iter loc) (add_order ord s)"
  unfolding unreferenced_def
proof (intro allI impI)
  fix oid l
  assume a: "order_lookup (add_order ord s) oid = Some l"
  from book_inv_lookupD [OF inv lk] obtain n where
    n: "list_nodes s (loc_list_iter loc) = Some n" and i: "order_id (order n) = order_id ord"
    by blast
  show "loc_list_iter l \<noteq> loc_list_iter loc"
  proof (cases "oid = order_id ord")
    case True
    with a book_inv_boundD [OF inv n] show ?thesis by (auto simp: add_order_proj)
  next
    case False
    with a have l: "order_lookup s oid = Some l" by (simp add: add_order_proj)
    from book_inv_lookupD [OF inv l] obtain n' where
      "list_nodes s (loc_list_iter l) = Some n'" "order_id (order n') = oid" by blast
    with n i False show ?thesis by auto
  qed
qed

subsection \<open>The example book\<close>

lemmas example_defs = buy1_def buy2_def buy3_def sell4_def sell5_def dup1_def

lemmas model_defs = add_order_def empty_book_def Let_def add_to_level_def new_level_def
  levels_subscript_def remove_from_level_def amend_level_def cancel_order_def amend_order_def
  get_snapshot_def

lemma example_book_eq:
  "example_book =
     \<lparr>bids = [(100, \<lparr>level_price = 100, orders = [0, 1], total_quantity = 80\<rparr>),
              (99, \<lparr>level_price = 99, orders = [2], total_quantity = 100\<rparr>)],
      asks = [(101, \<lparr>level_price = 101, orders = [3], total_quantity = 40\<rparr>),
              (102, \<lparr>level_price = 102, orders = [4], total_quantity = 60\<rparr>)],
      order_lookup = [1 \<mapsto> \<lparr>loc_is_buy = True, loc_price = 100, loc_list_iter = 0\<rparr>,
                      2 \<mapsto> \<lparr>loc_is_buy = True, loc_price = 100, loc_list_iter = 1\<rparr>,
                      3 \<mapsto> \<lparr>loc_is_buy = True, loc_price = 99, loc_list_iter = 2\<rparr>,
                      4 \<mapsto> \<lparr>loc_is_buy = False, loc_price = 101, loc_list_iter = 3\<rparr>,
                      5 \<mapsto> \<lparr>loc_is_buy = False, loc_price = 102, loc_list_iter = 4\<rparr>],
      list_nodes = [0 \<mapsto> \<lparr>order = buy1, list_iter = 0\<rparr>, 1 \<mapsto> \<lparr>order = buy2, list_iter = 1\<rparr>,
                    2 \<mapsto> \<lparr>order = buy3, list_iter = 2\<rparr>, 3 \<mapsto> \<lparr>order = sell4, list_iter = 3\<rparr>,
                    4 \<mapsto> \<lparr>order = sell5, list_iter = 4\<rparr>],
      next_iter = 5\<rparr>"
  by (simp add: example_book_def example_defs model_defs eval_nat_numeral)

lemma example_book_fresh: "reachable_fresh example_book"
  unfolding example_book_def
  by (intro reachable_fresh.intros) (simp_all add: example_defs model_defs)

lemma example_book_reachable: "reachable example_book"
  by (rule fresh_reachable [OF example_book_fresh])

lemma example_book_lookup:
  "order_lookup example_book 999 = None"
  "order_lookup example_book 2 = Some \<lparr>loc_is_buy = True, loc_price = 100, loc_list_iter = 1\<rparr>"
  "list_nodes example_book 1 = Some \<lparr>order = buy2, list_iter = 1\<rparr>"
  by (simp_all add: example_book_eq)

lemma example_book_order2:
  "price (order \<lparr>order = buy2, list_iter = 1\<rparr>) = 100"
  "quantity (order \<lparr>order = buy2, list_iter = 1\<rparr>) = 30"
  by (simp_all add: buy2_def)

section \<open>The claims\<close>

text \<open>
  C1 (amended). On every reachable book the total of every level is the sum, in
  \<open>uint64_t\<close>, of the quantities of the orders in its list, and every entry of
  \<open>order_lookup_\<close> names the side and the price of a level whose list holds the node
  of the entry, a node with an order of the id of the entry. On every book reached
  with \<open>add_order\<close> called only for ids that have no entry in \<open>order_lookup_\<close>,
  every order in a list has the entry under its id, and that entry names the side, the
  price and the node of the order.
\<close>

theorem totals_and_index:
  "(reachable s \<longrightarrow> totals_ok s \<and> lookup_ok s) \<and>
   (reachable_fresh s \<longrightarrow> live_orders_indexed s)"
proof (intro conjI impI)
  assume "reachable s"
  then have inv: "book_inv s" by (rule reachable_inv)
  then show "lookup_ok s" by (simp add: book_inv_def)
  show "totals_ok s"
    unfolding totals_ok_def
    using book_inv_levelD [OF inv] by (auto simp: book_inv_levels_of [OF inv] level_ok_def)
next
  assume fr: "reachable_fresh s"
  then have inv: "book_inv s" by (intro reachable_inv fresh_reachable)
  from fresh_all_indexed [OF fr] show "live_orders_indexed s"
    unfolding live_orders_indexed_def all_indexed_def
    by (fastforce simp: book_inv_levels_of [OF inv])
qed

theorem totals_and_index_witness:
  "reachable example_book \<and> reachable_fresh example_book \<and> totals_ok example_book
     \<and> lookup_ok example_book \<and> live_orders_indexed example_book"
  using totals_and_index [of example_book] example_book_reachable example_book_fresh by simp

text \<open>
  C1 as stated fails after \<open>add_order\<close> with an id that is in the book: the order
  \<open>buy1\<close> is still in the list of the level 100, and the entry under its id names the
  level 99 and the node of \<open>dup1\<close>.
\<close>

theorem totals_and_index_counterexample:
  "reachable (add_order dup1 (add_order buy1 empty_book)) \<and>
   bids (add_order dup1 (add_order buy1 empty_book)) =
     [(100, \<lparr>level_price = 100, orders = [0], total_quantity = 50\<rparr>),
      (99, \<lparr>level_price = 99, orders = [1], total_quantity = 30\<rparr>)] \<and>
   list_nodes (add_order dup1 (add_order buy1 empty_book)) 0 = Some \<lparr>order = buy1, list_iter = 0\<rparr> \<and>
   order_lookup (add_order dup1 (add_order buy1 empty_book)) (order_id buy1) =
     Some \<lparr>loc_is_buy = True, loc_price = 99, loc_list_iter = 1\<rparr> \<and>
   \<not> live_orders_indexed (add_order dup1 (add_order buy1 empty_book))"
proof -
  have "reachable (add_order dup1 (add_order buy1 empty_book))"
    by (intro reachable.intros)
  then show ?thesis
    by (simp add: example_defs model_defs live_orders_indexed_def levels_of_def)
qed

text \<open>
  C2 (amended). On every reachable book, every level of \<open>bids_\<close> and \<open>asks_\<close> has a
  non-empty list of orders. (Its total can be 0.)
\<close>

theorem levels_not_empty: "reachable s \<Longrightarrow> no_empty_level s"
proof -
  assume "reachable s"
  then have inv: "book_inv s" by (rule reachable_inv)
  show "no_empty_level s"
    unfolding no_empty_level_def
    using book_inv_levelD [OF inv] by (auto simp: book_inv_levels_of [OF inv] level_ok_def)
qed

theorem levels_not_empty_witness: "reachable example_book \<and> no_empty_level example_book"
  using levels_not_empty [OF example_book_reachable] example_book_reachable by simp

text \<open>
  C2 as stated fails for the total: \<open>amend_order\<close> with the price of the order and the
  new quantity 0 leaves the order in its list and the level in the map, with the
  total 0.
\<close>

theorem levels_not_empty_counterexample:
  "reachable (add_order buy1 empty_book) \<and>
   amend_order 1 100 0 (add_order buy1 empty_book) =
     Some (True,
       \<lparr>bids = [(100, \<lparr>level_price = 100, orders = [0], total_quantity = 0\<rparr>)],
        asks = [],
        order_lookup = [1 \<mapsto> \<lparr>loc_is_buy = True, loc_price = 100, loc_list_iter = 0\<rparr>],
        list_nodes = [0 \<mapsto> \<lparr>order = buy1\<lparr>quantity := 0\<rparr>, list_iter = 0\<rparr>],
        next_iter = 1\<rparr>)"
proof -
  have "reachable (add_order buy1 empty_book)"
    by (intro reachable.intros)
  then show ?thesis
    by (simp add: example_defs model_defs)
qed

text \<open>
  C3 (amended). On a reachable book, \<open>add_order\<close> of an order whose id has an entry
  in \<open>order_lookup_\<close> does not reject the order: its node is appended to the list of
  its level. The entry of the id is overwritten with the location of the new node, so
  \<open>order_lookup_\<close> has the same ids as before and still one entry for this one. The
  node of the earlier order is left as it was, and after every sequence of operations
  that follows it is still in the list of its level, with no entry of
  \<open>order_lookup_\<close> that refers to it: no \<open>cancel_order\<close> reaches it.
\<close>

theorem duplicate_id_add:
  assumes "reachable s" and "order_lookup s (order_id ord) = Some loc"
  shows "order_lookup (add_order ord s) =
           (order_lookup s)(order_id ord \<mapsto>
              \<lparr>loc_is_buy = is_buy ord, loc_price = price ord, loc_list_iter = next_iter s\<rparr>) \<and>
         dom (order_lookup (add_order ord s)) = dom (order_lookup s) \<and>
         in_queue (next_iter s) (is_buy ord) (price ord) (add_order ord s) \<and>
         next_iter s \<noteq> loc_list_iter loc \<and>
         (\<exists>n. list_nodes s (loc_list_iter loc) = Some n \<and> order_id (order n) = order_id ord \<and>
              list_nodes (add_order ord s) (loc_list_iter loc) = Some n) \<and>
         (\<forall>ops. \<exists>s'. run ops (add_order ord s) = Some s' \<and>
              in_queue (loc_list_iter loc) (loc_is_buy loc) (loc_price loc) s' \<and>
              unreferenced (loc_list_iter loc) s')"
proof -
  from assms(1) have inv: "book_inv s" by (rule reachable_inv)
  let ?h = "loc_list_iter loc"
  from book_inv_lookupD [OF inv assms(2)] obtain lvl n where
    f: "levels_find (loc_price loc) (side_levels (loc_is_buy loc) s) = Some lvl"
    and m: "?h \<in> set (orders lvl)"
    and n: "list_nodes s ?h = Some n" and i: "order_id (order n) = order_id ord"
    by blast
  from book_inv_boundD [OF inv n] have ne: "next_iter s \<noteq> ?h" by simp
  have d: "dom (order_lookup (add_order ord s)) = dom (order_lookup s)"
    using assms(2) by (auto simp: add_order_proj)
  have new: "in_queue (next_iter s) (is_buy ord) (price ord) (add_order ord s)"
    by (simp add: in_queue_iff add_order_proj levels_find_modify levels_find_subscript
          add_to_level_def)
  have n': "list_nodes (add_order ord s) ?h = Some n"
    using n ne by (simp add: add_order_proj)
  from f m have q: "in_queue ?h (loc_is_buy loc) (loc_price loc) s" by (simp add: in_queue_iff)
  have "\<exists>s'. run ops (add_order ord s) = Some s' \<and>
              in_queue ?h (loc_is_buy loc) (loc_price loc) s' \<and> unreferenced ?h s'" for ops
    using orphan_run [OF book_inv_add_order [OF inv] in_queue_add_order [OF q]
        shadowed_unreferenced [OF inv assms(2)], of ops]
    by blast
  with d new ne n i n' show ?thesis by (simp add: add_order_proj)
qed

theorem duplicate_id_add_witness:
  "reachable (add_order buy1 empty_book) \<and>
   order_lookup (add_order buy1 empty_book) (order_id dup1) =
     Some \<lparr>loc_is_buy = True, loc_price = 100, loc_list_iter = 0\<rparr> \<and>
   order_lookup (add_order dup1 (add_order buy1 empty_book)) =
     [1 \<mapsto> \<lparr>loc_is_buy = True, loc_price = 99, loc_list_iter = 1\<rparr>] \<and>
   (\<exists>s'. run [Cancel 1, Cancel 1] (add_order dup1 (add_order buy1 empty_book)) = Some s' \<and>
      in_queue 0 True 100 s' \<and> unreferenced 0 s') \<and>
   map_option bids (run [Cancel 1, Cancel 1] (add_order dup1 (add_order buy1 empty_book))) =
     Some [(100, \<lparr>level_price = 100, orders = [0], total_quantity = 50\<rparr>)]"
proof -
  have r: "reachable (add_order buy1 empty_book)" by (intro reachable.intros)
  have l: "order_lookup (add_order buy1 empty_book) (order_id dup1) =
     Some \<lparr>loc_is_buy = True, loc_price = 100, loc_list_iter = 0\<rparr>"
    by (simp add: example_defs model_defs)
  have e: "map_option bids (run [Cancel 1, Cancel 1] (add_order dup1 (add_order buy1 empty_book))) =
     Some [(100, \<lparr>level_price = 100, orders = [0], total_quantity = 50\<rparr>)]"
    by (simp add: example_defs model_defs)
  note t = duplicate_id_add [OF r l]
  from t have "\<forall>ops. \<exists>s'. run ops (add_order dup1 (add_order buy1 empty_book)) = Some s' \<and>
      in_queue 0 True 100 s' \<and> unreferenced 0 s'"
    by simp
  then have "\<exists>s'. run [Cancel 1, Cancel 1] (add_order dup1 (add_order buy1 empty_book)) = Some s' \<and>
      in_queue 0 True 100 s' \<and> unreferenced 0 s'"
    by (rule spec)
  moreover from t have "order_lookup (add_order dup1 (add_order buy1 empty_book)) =
          (order_lookup (add_order buy1 empty_book))(order_id dup1 \<mapsto>
              \<lparr>loc_is_buy = is_buy dup1, loc_price = price dup1,
               loc_list_iter = next_iter (add_order buy1 empty_book)\<rparr>)"
    by (rule conjunct1)
  moreover have "(order_lookup (add_order buy1 empty_book))(order_id dup1 \<mapsto>
              \<lparr>loc_is_buy = is_buy dup1, loc_price = price dup1,
               loc_list_iter = next_iter (add_order buy1 empty_book)\<rparr>) =
      [1 \<mapsto> \<lparr>loc_is_buy = True, loc_price = 99, loc_list_iter = 1\<rparr>]"
    by (simp add: example_defs model_defs)
  ultimately show ?thesis using r l e by simp
qed

text \<open>
  C3 as stated fails: there are not two entries for the id. After the second
  \<open>add_order\<close> with the id 1, \<open>order_lookup_\<close> has one entry, that of the second
  order; the entry that referred to the node of the first order is gone.
\<close>

theorem duplicate_id_add_counterexample:
  "reachable (add_order buy1 empty_book) \<and>
   order_lookup (add_order buy1 empty_book) =
     [1 \<mapsto> \<lparr>loc_is_buy = True, loc_price = 100, loc_list_iter = 0\<rparr>] \<and>
   order_id dup1 = order_id buy1 \<and>
   order_lookup (add_order dup1 (add_order buy1 empty_book)) =
     [1 \<mapsto> \<lparr>loc_is_buy = True, loc_price = 99, loc_list_iter = 1\<rparr>] \<and>
   card (dom (order_lookup (add_order dup1 (add_order buy1 empty_book)))) = 1"
proof -
  have "reachable (add_order buy1 empty_book)"
    by (intro reachable.intros)
  then show ?thesis
    by (simp add: example_defs model_defs)
qed

text \<open>
  C4. On every reachable book and for every order id, \<open>cancel_order\<close> and
  \<open>amend_order\<close> return (their behaviour is defined), they return \<open>false\<close> if and
  only if the id has no entry in \<open>order_lookup_\<close>, and when they return \<open>false\<close> the
  book after the call is the book before it.
\<close>

theorem failure_iff_unknown_id:
  assumes "reachable s"
  shows "(\<exists>r s'. cancel_order oid s = Some (r, s') \<and> (\<not> r \<longleftrightarrow> order_lookup s oid = None)
            \<and> (\<not> r \<longrightarrow> s' = s)) \<and>
         (\<exists>r s'. amend_order oid p q s = Some (r, s') \<and> (\<not> r \<longleftrightarrow> order_lookup s oid = None)
            \<and> (\<not> r \<longrightarrow> s' = s))"
proof -
  from assms have inv: "book_inv s" by (rule reachable_inv)
  from cancel_order_cases [OF inv, of oid]
  have "\<exists>r s'. cancel_order oid s = Some (r, s') \<and> (\<not> r \<longleftrightarrow> order_lookup s oid = None)
            \<and> (\<not> r \<longrightarrow> s' = s)"
    by auto
  moreover from amend_order_cases [OF inv, of oid p q]
  have "\<exists>r s'. amend_order oid p q s = Some (r, s') \<and> (\<not> r \<longleftrightarrow> order_lookup s oid = None)
            \<and> (\<not> r \<longrightarrow> s' = s)"
    by auto
  ultimately show ?thesis by blast
qed

theorem failure_iff_unknown_id_witness:
  "reachable example_book \<and>
   order_lookup example_book 999 = None \<and>
   cancel_order 999 example_book = Some (False, example_book) \<and>
   amend_order 999 100 10 example_book = Some (False, example_book) \<and>
   order_lookup example_book 2 \<noteq> None \<and>
   map_option fst (cancel_order 2 example_book) = Some True \<and>
   map_option fst (amend_order 2 100 10 example_book) = Some True"
proof -
  note r = example_book_reachable
  have a: "order_lookup example_book 999 = None" and b: "order_lookup example_book 2 \<noteq> None"
    by (simp_all add: example_book_lookup)
  from failure_iff_unknown_id [OF r, of 999 100 10] a
  have "cancel_order 999 example_book = Some (False, example_book)"
    and "amend_order 999 100 10 example_book = Some (False, example_book)"
    by auto
  moreover from failure_iff_unknown_id [OF r, of 2 100 10] b
  have "map_option fst (cancel_order 2 example_book) = Some True"
    and "map_option fst (amend_order 2 100 10 example_book) = Some True"
    by force+
  ultimately show ?thesis using r a b by blast
qed

text \<open>
  C5 (amended). On a reachable book where the entry of \<open>order_id\<close> in
  \<open>order_lookup_\<close> refers to an order with price \<open>p\<close> and quantity \<open>old_q\<close>,
  \<open>amend_order(order_id, p, new_q)\<close> returns \<open>true\<close>; the node of the order holds the
  same order with the quantity \<open>new_q\<close>; the level of \<open>p\<close> on the side of the order
  is the level it was, list of orders included, with \<open>new_q - old_q\<close> added to its
  total (in \<open>uint64_t\<close>); the other levels of that side, the order of its keys, the
  other side, \<open>order_lookup_\<close> and the other nodes are as before.
\<close>

theorem amend_same_price:
  assumes "reachable s" and "order_lookup s oid = Some loc"
    and "list_nodes s (loc_list_iter loc) = Some n"
    and "price (order n) = p" and "quantity (order n) = old_q"
  shows "\<exists>lvl s'.
     levels_find p (side_levels (loc_is_buy loc) s) = Some lvl \<and>
     loc_list_iter loc \<in> set (orders lvl) \<and>
     amend_order oid p new_q s = Some (True, s') \<and>
     list_nodes s' = (list_nodes s)(loc_list_iter loc \<mapsto> n\<lparr>order := (order n)\<lparr>quantity := new_q\<rparr>\<rparr>) \<and>
     levels_find p (side_levels (loc_is_buy loc) s') =
       Some (lvl\<lparr>total_quantity := total_quantity lvl + (new_q - old_q)\<rparr>) \<and>
     (\<forall>k. k \<noteq> p \<longrightarrow> levels_find k (side_levels (loc_is_buy loc) s') =
                        levels_find k (side_levels (loc_is_buy loc) s)) \<and>
     map fst (side_levels (loc_is_buy loc) s') = map fst (side_levels (loc_is_buy loc) s) \<and>
     side_levels (\<not> loc_is_buy loc) s' = side_levels (\<not> loc_is_buy loc) s \<and>
     order_lookup s' = order_lookup s \<and> next_iter s' = next_iter s"
proof -
  from assms(1) have inv: "book_inv s" by (rule reachable_inv)
  from order_found [OF inv assms(2,3)] obtain lvl where
    f0: "levels_find (loc_price loc) (side_levels (loc_is_buy loc) s) = Some lvl"
    and m: "loc_list_iter loc \<in> set (orders lvl)"
    and k0: "price (order n) = loc_price loc"
    by blast
  from k0 assms(4) have k: "loc_price loc = p" by simp
  from f0 k have f: "levels_find p (side_levels (loc_is_buy loc) s) = Some lvl" by simp
  from amend_order_same_price [OF assms(2) f0 assms(3,4)]
  have a: "amend_order oid p new_q s = Some (True, amended loc n new_q s)" .
  have t: "amend_level (order n) new_q lvl = lvl\<lparr>total_quantity := total_quantity lvl + (new_q - old_q)\<rparr>"
    using assms(5) by (simp add: amend_level_def)
  show ?thesis
    using f m a k t
    by (intro exI [of _ lvl] exI [of _ "amended loc n new_q s"])
       (simp add: amended_proj levels_find_modify keys_modify)
qed

theorem amend_same_price_witness:
  "reachable example_book \<and>
   order_lookup example_book 2 = Some \<lparr>loc_is_buy = True, loc_price = 100, loc_list_iter = 1\<rparr> \<and>
   list_nodes example_book 1 = Some \<lparr>order = buy2, list_iter = 1\<rparr> \<and>
   price buy2 = 100 \<and> quantity buy2 = 30 \<and>
   (\<exists>s'. amend_order 2 100 75 example_book = Some (True, s') \<and>
      bids s' = [(100, \<lparr>level_price = 100, orders = [0, 1], total_quantity = 125\<rparr>),
                 (99, \<lparr>level_price = 99, orders = [2], total_quantity = 100\<rparr>)] \<and>
      list_nodes s' 1 = Some \<lparr>order = buy2\<lparr>quantity := 75\<rparr>, list_iter = 1\<rparr> \<and>
      order_lookup s' = order_lookup example_book)"
proof -
  from amend_same_price [OF example_book_reachable example_book_lookup(2)
      _ example_book_order2, of 75] example_book_lookup(3)
  obtain lvl s' where
    f: "levels_find 100 (side_levels True example_book) = Some lvl"
    and a: "amend_order 2 100 75 example_book = Some (True, s')"
    and n: "list_nodes s' = (list_nodes example_book)(1 \<mapsto> \<lparr>order = buy2, list_iter = 1\<rparr>
              \<lparr>order := (order \<lparr>order = buy2, list_iter = 1\<rparr>)\<lparr>quantity := 75\<rparr>\<rparr>)"
    and l: "order_lookup s' = order_lookup example_book"
    by auto
  from a have "bids s' = [(100, \<lparr>level_price = 100, orders = [0, 1], total_quantity = 125\<rparr>),
                 (99, \<lparr>level_price = 99, orders = [2], total_quantity = 100\<rparr>)]"
    by (auto simp: example_book_eq amend_order_def amend_level_def buy2_def)
  with a n l example_book_reachable example_book_lookup show ?thesis
    by (simp add: buy2_def)
qed

text \<open>
  C5 as stated fails for a live order that the entry of its id does not refer to.
  After \<open>add_order\<close> of \<open>buy1\<close> and of \<open>dup1\<close>, which has the same id, \<open>buy1\<close> is
  live at the price 100 with the quantity 50, and the entry of the id 1 refers to
  \<open>dup1\<close> at the price 99. \<open>amend_order(1, 100, 7)\<close> then finds another price than
  that of \<open>dup1\<close>: it cancels \<open>dup1\<close>, erases the level 99 and adds a third node to
  the level 100. The quantity of \<open>buy1\<close> is still 50 and the total of the level 100
  is 57.
\<close>

theorem amend_same_price_counterexample:
  "reachable (add_order dup1 (add_order buy1 empty_book)) \<and>
   in_queue 0 True 100 (add_order dup1 (add_order buy1 empty_book)) \<and>
   list_nodes (add_order dup1 (add_order buy1 empty_book)) 0 = Some \<lparr>order = buy1, list_iter = 0\<rparr> \<and>
   order_id buy1 = 1 \<and> price buy1 = 100 \<and> quantity buy1 = 50 \<and>
   bids (add_order dup1 (add_order buy1 empty_book)) =
     [(100, \<lparr>level_price = 100, orders = [0], total_quantity = 50\<rparr>),
      (99, \<lparr>level_price = 99, orders = [1], total_quantity = 30\<rparr>)] \<and>
   amend_order 1 100 7 (add_order dup1 (add_order buy1 empty_book)) =
     Some (True,
       \<lparr>bids = [(100, \<lparr>level_price = 100, orders = [0, 2], total_quantity = 57\<rparr>)],
        asks = [],
        order_lookup = [1 \<mapsto> \<lparr>loc_is_buy = True, loc_price = 100, loc_list_iter = 2\<rparr>],
        list_nodes = [0 \<mapsto> \<lparr>order = buy1, list_iter = 0\<rparr>,
                      2 \<mapsto> \<lparr>order = dup1\<lparr>price := 100, quantity := 7\<rparr>, list_iter = 2\<rparr>],
        next_iter = 3\<rparr>)"
proof -
  have "reachable (add_order dup1 (add_order buy1 empty_book))"
    by (intro reachable.intros)
  then show ?thesis
    by (simp add: example_defs model_defs in_queue_def side_levels_def eval_nat_numeral)
qed

text \<open>
  C6 (amended). On a reachable book where the entry of \<open>order_id\<close> in
  \<open>order_lookup_\<close> refers to an order with price \<open>p\<close>, and for \<open>new_price\<close> other
  than \<open>p\<close>, \<open>cancel_order(order_id)\<close> succeeds and
  \<open>amend_order(order_id, new_price, new_q)\<close> returns \<open>true\<close> with the book that
  \<open>add_order\<close> makes of the cancelled book and the order with the same id, the same
  side, the price \<open>new_price\<close>, the quantity \<open>new_q\<close> (and the timestamp of the old
  order). In that book the node of the order is the last of the list of the level
  \<open>new_price\<close>, and the entry of \<open>order_id\<close> refers to it.
\<close>

theorem amend_new_price:
  assumes "reachable s" and "order_lookup s oid = Some loc"
    and "list_nodes s (loc_list_iter loc) = Some n"
    and "price (order n) = p" and "new_price \<noteq> p"
  shows "\<exists>s1 s2 lvl front.
     cancel_order oid s = Some (True, s1) \<and>
     s2 = add_order \<lparr>order_id = oid, is_buy = loc_is_buy loc, price = new_price,
                     quantity = new_q, timestamp_ns = timestamp_ns (order n)\<rparr> s1 \<and>
     amend_order oid new_price new_q s = Some (True, s2) \<and>
     levels_find new_price (side_levels (loc_is_buy loc) s2) = Some lvl \<and>
     orders lvl = front @ [next_iter s] \<and>
     order_lookup s2 oid =
       Some \<lparr>loc_is_buy = loc_is_buy loc, loc_price = new_price, loc_list_iter = next_iter s\<rparr>"
proof -
  from assms(1) have inv: "book_inv s" by (rule reachable_inv)
  from order_found [OF inv assms(2,3)] obtain lvl0 where
    i: "order_id (order n) = oid" and b: "is_buy (order n) = loc_is_buy loc"
    and c: "cancel_order oid s = Some (True, cancelled oid loc n lvl0 s)"
    by blast
  let ?s1 = "cancelled oid loc n lvl0 s"
  let ?ord = "\<lparr>order_id = oid, is_buy = loc_is_buy loc, price = new_price,
                     quantity = new_q, timestamp_ns = timestamp_ns (order n)\<rparr>"
  have o: "(order n)\<lparr>price := new_price, quantity := new_q\<rparr> = ?ord"
    using i b by simp
  from assms(4,5) have "price (order n) \<noteq> new_price" by simp
  from amend_order_new_price [OF assms(2,3) this c, of new_q] o
  have a: "amend_order oid new_price new_q s = Some (True, add_order ?ord ?s1)" by simp
  have "\<exists>lvl front.
          levels_find new_price (side_levels (loc_is_buy loc) (add_order ?ord ?s1)) = Some lvl
          \<and> orders lvl = front @ [next_iter s]"
    by (simp add: add_order_proj levels_find_modify levels_find_subscript add_to_level_def
          cancelled_proj)
  moreover have "order_lookup (add_order ?ord ?s1) oid =
       Some \<lparr>loc_is_buy = loc_is_buy loc, loc_price = new_price, loc_list_iter = next_iter s\<rparr>"
    by (simp add: add_order_proj cancelled_proj)
  ultimately show ?thesis using c a by blast
qed

theorem amend_new_price_witness:
  "reachable example_book \<and>
   order_lookup example_book 2 = Some \<lparr>loc_is_buy = True, loc_price = 100, loc_list_iter = 1\<rparr> \<and>
   list_nodes example_book 1 = Some \<lparr>order = buy2, list_iter = 1\<rparr> \<and>
   price buy2 = 100 \<and> (99::real) \<noteq> 100 \<and>
   (\<exists>s1. cancel_order 2 example_book = Some (True, s1) \<and>
      amend_order 2 99 75 example_book =
        Some (True, add_order \<lparr>order_id = 2, is_buy = True, price = 99, quantity = 75,
                                timestamp_ns = 2000\<rparr> s1)) \<and>
   map_option (bids \<circ> snd) (amend_order 2 99 75 example_book) =
     Some [(100, \<lparr>level_price = 100, orders = [0], total_quantity = 50\<rparr>),
           (99, \<lparr>level_price = 99, orders = [2, 5], total_quantity = 175\<rparr>)]"
proof -
  have ne: "(99::real) \<noteq> 100" by simp
  from amend_new_price [OF example_book_reachable example_book_lookup(2)
      _ example_book_order2(1) ne, of 75] example_book_lookup(3)
  have "\<exists>s1. cancel_order 2 example_book = Some (True, s1) \<and>
      amend_order 2 99 75 example_book =
        Some (True, add_order \<lparr>order_id = 2, is_buy = True, price = 99, quantity = 75,
                                timestamp_ns = 2000\<rparr> s1)"
    by (auto simp: buy2_def)
  moreover have "map_option (bids \<circ> snd) (amend_order 2 99 75 example_book) =
     Some [(100, \<lparr>level_price = 100, orders = [0], total_quantity = 50\<rparr>),
           (99, \<lparr>level_price = 99, orders = [2, 5], total_quantity = 175\<rparr>)]"
    by (simp add: example_book_eq example_defs model_defs)
  ultimately show ?thesis
    using example_book_reachable example_book_lookup by (simp add: buy2_def)
qed

text \<open>
  C6 as stated fails for a live order that the entry of its id does not refer to.
  After \<open>add_order\<close> of \<open>buy1\<close>, of \<open>dup1\<close> with the same id and of \<open>buy3\<close>,
  \<open>buy1\<close> is live at the price 100, the entry of the id 1 refers to \<open>dup1\<close> at the
  price 99, and the list of the level 99 is \<open>dup1\<close>, \<open>buy3\<close>. For the new price 99,
  which is not the price of \<open>buy1\<close>, \<open>amend_order(1, 99, 7)\<close> finds the price of
  \<open>dup1\<close> unchanged and writes the quantity in place: the list of the level 99 is
  still the nodes 1, 2. \<open>cancel_order(1)\<close> followed by \<open>add_order\<close> of an order with
  the id 1, the same side, the price 99 and the quantity 7 leaves the nodes 2, 3
  there, whatever the timestamp of the added order.
\<close>

theorem amend_new_price_counterexample:
  "reachable (add_order buy3 (add_order dup1 (add_order buy1 empty_book))) \<and>
   in_queue 0 True 100 (add_order buy3 (add_order dup1 (add_order buy1 empty_book))) \<and>
   list_nodes (add_order buy3 (add_order dup1 (add_order buy1 empty_book))) 0 =
     Some \<lparr>order = buy1, list_iter = 0\<rparr> \<and>
   order_id buy1 = 1 \<and> price buy1 = 100 \<and> (99::real) \<noteq> 100 \<and>
   bids (add_order buy3 (add_order dup1 (add_order buy1 empty_book))) =
     [(100, \<lparr>level_price = 100, orders = [0], total_quantity = 50\<rparr>),
      (99, \<lparr>level_price = 99, orders = [1, 2], total_quantity = 130\<rparr>)] \<and>
   map_option fst (amend_order 1 99 7 (add_order buy3 (add_order dup1 (add_order buy1 empty_book)))) =
     Some True \<and>
   map_option (bids \<circ> snd)
     (amend_order 1 99 7 (add_order buy3 (add_order dup1 (add_order buy1 empty_book)))) =
     Some [(100, \<lparr>level_price = 100, orders = [0], total_quantity = 50\<rparr>),
           (99, \<lparr>level_price = 99, orders = [1, 2], total_quantity = 107\<rparr>)] \<and>
   map_option fst (cancel_order 1 (add_order buy3 (add_order dup1 (add_order buy1 empty_book)))) =
     Some True \<and>
   map_option (bids \<circ> add_order (buy1\<lparr>price := 99, quantity := 7\<rparr>) \<circ> snd)
     (cancel_order 1 (add_order buy3 (add_order dup1 (add_order buy1 empty_book)))) =
     Some [(100, \<lparr>level_price = 100, orders = [0], total_quantity = 50\<rparr>),
           (99, \<lparr>level_price = 99, orders = [2, 3], total_quantity = 107\<rparr>)]"
proof -
  have "reachable (add_order buy3 (add_order dup1 (add_order buy1 empty_book)))"
    by (intro reachable.intros)
  then show ?thesis
    by (simp add: example_defs model_defs in_queue_def side_levels_def eval_nat_numeral)
qed

text \<open>
  C7. For every book and every depth, \<open>get_snapshot\<close> returns, whatever its two
  vectors held, the summaries (key and total) of the first \<open>depth\<close> levels of
  \<open>bids_\<close> and of the first \<open>depth\<close> levels of \<open>asks_\<close>, in the iteration order of the
  maps: \<open>min depth n\<close> summaries for a side with \<open>n\<close> levels, no more and no fewer.
  On a reachable book the keys of a side are distinct, so \<open>n\<close> is the number of
  distinct prices of the side. The function is \<open>const\<close> and returns no book.
\<close>

theorem snapshot_prefix:
  "get_snapshot depth bids_arg asks_arg s =
     (map level_summary (take depth (bids s)), map level_summary (take depth (asks s))) \<and>
   length (fst (get_snapshot depth bids_arg asks_arg s)) = min depth (length (bids s)) \<and>
   length (snd (get_snapshot depth bids_arg asks_arg s)) = min depth (length (asks s)) \<and>
   (reachable s \<longrightarrow>
      length (bids s) = card (fst ` set (bids s)) \<and> length (asks s) = card (fst ` set (asks s)))"
proof -
  have eq: "get_snapshot depth bids_arg asks_arg s =
     (map level_summary (take depth (bids s)), map level_summary (take depth (asks s)))"
    by (simp add: get_snapshot_def snapshot_loop_eq level_summary_def case_prod_unfold)
  have "length (bids s) = card (fst ` set (bids s)) \<and> length (asks s) = card (fst ` set (asks s))"
    if "reachable s"
  proof -
    from that have inv: "book_inv s" by (rule reachable_inv)
    from book_inv_distinct [OF inv, of True] book_inv_distinct [OF inv, of False]
    have "distinct (map fst (bids s))" and "distinct (map fst (asks s))"
      by (simp_all add: side_levels_def)
    from distinct_card [OF this(1)] distinct_card [OF this(2)] show ?thesis by simp
  qed
  with eq show ?thesis by (simp add: min_def)
qed

theorem snapshot_prefix_witness:
  "reachable example_book \<and>
   get_snapshot 1 [] [] example_book =
     ([\<lparr>pl_price = 100, pl_total_quantity = 80\<rparr>], [\<lparr>pl_price = 101, pl_total_quantity = 40\<rparr>]) \<and>
   get_snapshot 5 [] [] example_book =
     ([\<lparr>pl_price = 100, pl_total_quantity = 80\<rparr>, \<lparr>pl_price = 99, pl_total_quantity = 100\<rparr>],
      [\<lparr>pl_price = 101, pl_total_quantity = 40\<rparr>, \<lparr>pl_price = 102, pl_total_quantity = 60\<rparr>]) \<and>
   length (bids example_book) = card (fst ` set (bids example_book))"
  using snapshot_prefix [of 1 "[]" "[]" example_book] snapshot_prefix [of 5 "[]" "[]" example_book]
    example_book_reachable
  by (simp add: example_book_eq level_summary_def)

text \<open>
  C8. On every reachable book and for every depth, the prices of the bids that
  \<open>get_snapshot\<close> returns are strictly descending and the prices of the asks strictly
  ascending.
\<close>

theorem snapshot_sorted:
  assumes "reachable s"
  shows "sorted_wrt (>) (map pl_price (fst (get_snapshot depth bids_arg asks_arg s))) \<and>
         sorted_wrt (<) (map pl_price (snd (get_snapshot depth bids_arg asks_arg s)))"
proof -
  from assms have inv: "book_inv s" by (rule reachable_inv)
  from book_inv_sortedD [OF inv, of True] book_inv_sortedD [OF inv, of False]
  have "sorted_wrt (>) (map fst (bids s))" and "sorted_wrt (<) (map fst (asks s))"
    by (simp_all add: side_levels_def side_lt_def)
  then have "sorted_wrt (>) (take depth (map fst (bids s)))"
    and "sorted_wrt (<) (take depth (map fst (asks s)))"
    by (simp_all add: sorted_wrt_take)
  then show ?thesis
    by (simp add: get_snapshot_def snapshot_loop_eq case_prod_unfold take_map comp_def)
qed

theorem snapshot_sorted_witness:
  "reachable example_book \<and>
   map pl_price (fst (get_snapshot 5 [] [] example_book)) = [100, 99] \<and>
   map pl_price (snd (get_snapshot 5 [] [] example_book)) = [101, 102] \<and>
   sorted_wrt (>) (map pl_price (fst (get_snapshot 5 [] [] example_book))) \<and>
   sorted_wrt (<) (map pl_price (snd (get_snapshot 5 [] [] example_book)))"
  using snapshot_sorted [OF example_book_reachable, of 5 "[]" "[]"] example_book_reachable
  by (simp add: example_book_eq get_snapshot_def)

text \<open>
  C9. On a reachable book \<open>s\<close> and for an order whose id has no entry in
  \<open>order_lookup_\<close>, \<open>cancel_order\<close> of that id after \<open>add_order\<close> of the order
  returns \<open>true\<close>, and the book it leaves has the \<open>bids_\<close> and \<open>asks_\<close> of \<open>s\<close>,
  hence the snapshot of \<open>s\<close> at every depth.
\<close>

theorem add_then_cancel:
  assumes "reachable s" and "order_lookup s (order_id ord) = None"
  shows "\<exists>s2. cancel_order (order_id ord) (add_order ord s) = Some (True, s2) \<and>
           bids s2 = bids s \<and> asks s2 = asks s \<and>
           (\<forall>depth bids_arg asks_arg.
              get_snapshot depth bids_arg asks_arg s2 = get_snapshot depth bids_arg asks_arg s)"
proof -
  from assms(1) have inv: "book_inv s" by (rule reachable_inv)
  let ?it = "next_iter s" and ?b = "is_buy ord" and ?k = "price ord"
  let ?s1 = "add_order ord s"
  let ?loc = "\<lparr>loc_is_buy = ?b, loc_price = ?k, loc_list_iter = ?it\<rparr>"
  let ?n = "\<lparr>order = ord, list_iter = ?it\<rparr>"
  let ?lvl0 = "case levels_find ?k (side_levels ?b s) of None \<Rightarrow> new_level | Some v \<Rightarrow> v"
  let ?lvl1 = "add_to_level ord ?it ?lvl0"
  let ?s2 = "cancelled (order_id ord) ?loc ?n ?lvl1 ?s1"
  have lk: "order_lookup ?s1 (order_id ord) = Some ?loc" by (simp add: add_order_proj)
  have f: "levels_find (loc_price ?loc) (side_levels (loc_is_buy ?loc) ?s1) = Some ?lvl1"
    by (simp add: add_order_proj levels_find_modify levels_find_subscript)
  have m: "loc_list_iter ?loc \<in> set (orders ?lvl1)" by (simp add: add_to_level_def)
  have n: "list_nodes ?s1 (loc_list_iter ?loc) = Some ?n" by (simp add: add_order_proj)
  from cancel_order_present [OF lk f m n]
  have c: "cancel_order (order_id ord) ?s1 = Some (True, ?s2)" .
  have side: "side_levels b ?s2 = side_levels b s" for b
  proof (cases "b = ?b")
    case True
    have "remove_from_level ?k ?it ord ?lvl1
           (levels_modify ?k (add_to_level ord ?it) (levels_subscript (side_lt ?b) ?k (side_levels ?b s)))
          = side_levels ?b s"
    proof (rule add_then_cancel_side)
      fix lvl assume fl: "levels_find ?k (side_levels ?b s) = Some lvl"
      from book_inv_levelD [OF inv fl] next_iter_fresh [OF inv fl]
      show "orders lvl \<noteq> [] \<and> level_price lvl = ?k \<and> ?it \<notin> set (orders lvl)"
        by (simp add: level_ok_def)
    qed simp
    with True show ?thesis by (simp add: cancelled_proj add_order_proj)
  next
    case False
    then show ?thesis by (simp add: cancelled_proj add_order_proj)
  qed
  from side [of True] side [of False] have bs: "bids ?s2 = bids s" and as: "asks ?s2 = asks s"
    by (simp_all add: side_levels_def)
  then have "get_snapshot depth bids_arg asks_arg ?s2 = get_snapshot depth bids_arg asks_arg s"
    for depth bids_arg asks_arg
    by (simp add: get_snapshot_def)
  with c bs as show ?thesis by blast
qed

theorem add_then_cancel_witness:
  "reachable example_book \<and> order_lookup example_book (order_id sell6) = None \<and>
   (\<exists>s2. cancel_order 6 (add_order sell6 example_book) = Some (True, s2) \<and>
      get_snapshot 5 [] [] s2 = get_snapshot 5 [] [] example_book \<and>
      get_snapshot 5 [] [] s2 =
        ([\<lparr>pl_price = 100, pl_total_quantity = 80\<rparr>, \<lparr>pl_price = 99, pl_total_quantity = 100\<rparr>],
         [\<lparr>pl_price = 101, pl_total_quantity = 40\<rparr>, \<lparr>pl_price = 102, pl_total_quantity = 60\<rparr>]))"
proof -
  have l: "order_lookup example_book (order_id sell6) = None"
    by (simp add: example_book_eq sell6_def)
  have i: "order_id sell6 = 6" by (simp add: sell6_def)
  have g: "get_snapshot 5 [] [] example_book =
        ([\<lparr>pl_price = 100, pl_total_quantity = 80\<rparr>, \<lparr>pl_price = 99, pl_total_quantity = 100\<rparr>],
         [\<lparr>pl_price = 101, pl_total_quantity = 40\<rparr>, \<lparr>pl_price = 102, pl_total_quantity = 60\<rparr>])"
    by (simp add: example_book_eq get_snapshot_def)
  from add_then_cancel [OF example_book_reachable l] i g l example_book_reachable
  show ?thesis by auto
qed



end
